theory Spec2Isabelle
  imports Main "HOL-Library.Sublist" "HOL-Library.Multiset" "HOL-Library.Char_ord"
    "HOL-Library.List_Lexorder"
begin

section \<open>Text primitives\<close>

text \<open>
  Document text, manifest text and markup fragments are Python \<^verbatim>\<open>str\<close> values. They are
  modelled as \<^typ>\<open>string\<close>, lists of characters with codes below 256; every token that the
  program searches for is ASCII. The regular expressions of the program are embedded
  one by one, as functions that match at the head of a text; each is deterministic, and
  the text next to it says why backtracking cannot find a different match. The
  backslash cannot be written inside a string literal, so it gets a name.
\<close>

abbreviation bs :: char where "bs \<equiv> CHR 0x5C"
abbreviation nl :: char where "nl \<equiv> CHR 0x0A"
abbreviation dq :: char where "dq \<equiv> CHR 0x22"

text \<open>\<^verbatim>\<open>sub in s\<close> is \<^term>\<open>sublist sub s\<close>. \<^verbatim>\<open>s.find(sub)\<close>: the lowest index at which
  \<^verbatim>\<open>sub\<close> occurs, \<^term>\<open>None\<close> for Python's \<^verbatim>\<open>-1\<close>.\<close>

fun find_sub :: "string \<Rightarrow> string \<Rightarrow> nat option" where
  "find_sub sub [] = (if sub = [] then Some 0 else None)"
| "find_sub sub (c # cs) =
     (if prefix sub (c # cs) then Some 0 else map_option Suc (find_sub sub cs))"

text \<open>\<^verbatim>\<open>s.find(sub, start)\<close> for a start index that is not negative.\<close>

definition find_from :: "string \<Rightarrow> string \<Rightarrow> nat \<Rightarrow> nat option" where
  "find_from sub s start =
     (if length s < start then None
      else map_option (\<lambda>i. i + start) (find_sub sub (drop start s)))"

text \<open>The slice \<^verbatim>\<open>s[a:b]\<close> for indices that are not negative; it is empty when
  \<^verbatim>\<open>b <= a\<close>, as in Python.\<close>

definition slice :: "string \<Rightarrow> nat \<Rightarrow> nat \<Rightarrow> string" where
  "slice s a b = take (b - a) (drop a s)"

text \<open>
  \<^verbatim>\<open>re.sub\<close> and \<^verbatim>\<open>str.replace\<close> scan the text from left to right and replace the
  leftmost matches that do not overlap. A matcher looks at the text that remains and, when
  the pattern matches at its head, gives the length of the match and the text that
  replaces it. No pattern of this program matches the empty text. The counter of the scan is the number of characters of the
  last match that are still to be skipped.
\<close>

type_synonym matcher = "string \<Rightarrow> (nat \<times> string) option"

fun re_sub_scan :: "matcher \<Rightarrow> nat \<Rightarrow> string \<Rightarrow> string" where
  "re_sub_scan mt k [] = []"
| "re_sub_scan mt k (c # cs) =
     (if 0 < k then re_sub_scan mt (k - 1) cs
      else case mt (c # cs) of
        Some (n, r) \<Rightarrow> r @ re_sub_scan mt (n - 1) cs
      | None \<Rightarrow> c # re_sub_scan mt 0 cs)"

definition re_sub :: "matcher \<Rightarrow> string \<Rightarrow> string" where
  "re_sub mt s = re_sub_scan mt 0 s"

text \<open>\<^verbatim>\<open>s.replace(old, new)\<close> for a pattern \<^verbatim>\<open>old\<close> that is not empty.\<close>

definition literal :: "string \<Rightarrow> string \<Rightarrow> matcher" where
  "literal old new s = (if prefix old s then Some (length old, new) else None)"

definition str_replace :: "string \<Rightarrow> string \<Rightarrow> string \<Rightarrow> string" where
  "str_replace old new s = re_sub (literal old new) s"

text \<open>\<^verbatim>\<open>re.search\<close>: the match at the leftmost position where the pattern matches.\<close>

fun re_search :: "(string \<Rightarrow> 'a option) \<Rightarrow> string \<Rightarrow> 'a option" where
  "re_search mt [] = mt []"
| "re_search mt (c # cs) = (case mt (c # cs) of Some r \<Rightarrow> Some r | None \<Rightarrow> re_search mt cs)"

text \<open>A literal piece of a pattern: the text that follows it.\<close>

definition lit :: "string \<Rightarrow> string \<Rightarrow> string option" where
  "lit p s = (if prefix p s then Some (drop (length p) s) else None)"

text \<open>
  The pieces \<^verbatim>\<open>[^}]*\}\<close> and \<^verbatim>\<open>[^}]+\}\<close>: the argument and the text after the closing
  brace. The greedy run of characters other than the brace ends at a brace or at the
  end of the text, and a shorter run is followed by a character that is not a brace, so
  backtracking finds no other match.
\<close>

definition arg_to_brace :: "string \<Rightarrow> (string \<times> string) option" where
  "arg_to_brace r =
     (case dropWhile (\<lambda>c. c \<noteq> CHR ''}'') r of
        [] \<Rightarrow> None
      | _ # rest \<Rightarrow> Some (takeWhile (\<lambda>c. c \<noteq> CHR ''}'') r, rest))"

text \<open>The pattern \<^verbatim>\<open>\\name\{([^}]+)\}\<close> at the head of the text: the length of the match
  and group 1.\<close>

definition braced_directive :: "string \<Rightarrow> string \<Rightarrow> (nat \<times> string) option" where
  "braced_directive name s =
     (case lit (bs # name @ ''{'') s of
        None \<Rightarrow> None
      | Some r \<Rightarrow>
          (case arg_to_brace r of
             None \<Rightarrow> None
           | Some (a, rest) \<Rightarrow> if a = [] then None else Some (length s - length rest, a)))"

text \<open>The class \<^verbatim>\<open>\s\<close> and the characters that \<^verbatim>\<open>str.strip\<close> removes, among the
  characters below 256.\<close>

definition is_space :: "char \<Rightarrow> bool" where
  "is_space c \<longleftrightarrow>
     c \<in> set [CHR 0x09, CHR 0x0A, CHR 0x0B, CHR 0x0C, CHR 0x0D, CHR 0x1C, CHR 0x1D, CHR 0x1E,
              CHR 0x1F, CHR 0x20, CHR 0x85, CHR 0xA0]"

text \<open>The class \<^verbatim>\<open>[a-zA-Z]\<close>.\<close>

definition is_alpha :: "char \<Rightarrow> bool" where
  "is_alpha c \<longleftrightarrow> (CHR ''a'' \<le> c \<and> c \<le> CHR ''z'') \<or> (CHR ''A'' \<le> c \<and> c \<le> CHR ''Z'')"

definition strip :: "string \<Rightarrow> string" where
  "strip s = rev (dropWhile is_space (rev (dropWhile is_space s)))"

text \<open>The exceptions that the modelled code can raise.\<close>

datatype py_error = OSError | ReError | IndexError | ValueError | UnboundLocalError

text \<open>
  The file system as the preprocessor sees it through \<^verbatim>\<open>pathlib\<close>, for any type of
  paths: \<^verbatim>\<open>exists\<close>, \<^verbatim>\<open>read_text\<close>, \<^verbatim>\<open>work_dir / name\<close>, \<^verbatim>\<open>parent\<close>,
  \<^verbatim>\<open>list(work_dir.glob("*.bib"))\<close> and \<^verbatim>\<open>name\<close>. The three calls that go to the
  operating system may raise: \<^verbatim>\<open>exists\<close> passes on every \<^verbatim>\<open>OSError\<close> that does not
  say that the file is missing (a name that is too long, a directory that may not be
  searched).
\<close>

record 'p file_system =
  path_exists :: "'p \<Rightarrow> py_error + bool"
  read_text :: "'p \<Rightarrow> py_error + string"
  join_path :: "'p \<Rightarrow> string \<Rightarrow> 'p"
  parent :: "'p \<Rightarrow> 'p"
  glob_bib :: "'p \<Rightarrow> py_error + 'p list"
  path_name :: "'p \<Rightarrow> string"

section \<open>Archive patcher: the manifest patch\<close>

text \<open>\<^verbatim>\<open>FONT_FILES\<close> of \<^verbatim>\<open>postprocessor.py\<close>.\<close>

definition FONT_FILES :: "string list" where
  "FONT_FILES =
     [''lmroman10-regular.otf'', ''lmroman10-bold.otf'', ''lmroman10-italic.otf'',
      ''lmroman10-bolditalic.otf'', ''lmsans10-regular.otf'', ''lmsans10-bold.otf'',
      ''lmmono10-regular.otf'']"

text \<open>One manifest line of \<^verbatim>\<open>_update_manifest\<close>: the identifier is the file name with
  each dot turned into a dash and \<^verbatim>\<open>-otf\<close> removed.\<close>

definition font_item :: "string \<Rightarrow> string" where
  "font_item font_name =
     (let item_id = str_replace ''-otf'' [] (str_replace ''.'' ''-'' font_name)
      in ''    <item id='' @ [dq] @ item_id @ [dq] @ '' href='' @ [dq] @ ''fonts/''
           @ font_name @ [dq] @ '' media-type='' @ [dq] @ ''font/otf'' @ [dq] @ ''/>''
           @ [nl])"

definition font_items :: string where
  "font_items = concat (map font_item FONT_FILES)"

text \<open>The manifest text after \<^verbatim>\<open>_update_manifest\<close> has run on a manifest file that
  holds \<^verbatim>\<open>content\<close>: unchanged when the marker font is already named, otherwise each
  closing tag is preceded by the font lines.\<close>

definition patch_manifest :: "string \<Rightarrow> string" where
  "patch_manifest content =
     (if sublist ''lmroman10-regular.otf'' content then content
      else str_replace ''</manifest>'' (font_items @ ''  </manifest>'') content)"

text \<open>\<^verbatim>\<open>_update_manifest\<close> on the package descriptors that \<^verbatim>\<open>rglob("*.opf")\<close> lists,
  each with its text: nothing happens when there is none, otherwise the first one is
  patched.\<close>

fun update_manifest :: "('p \<times> string) list \<Rightarrow> ('p \<times> string) list" where
  "update_manifest [] = []"
| "update_manifest ((opf_path, content) # rest) = (opf_path, patch_manifest content) # rest"


section \<open>Rewrite pipeline: the bibliography preparer\<close>

text \<open>
  The lookup of the bibliography file in \<^verbatim>\<open>_prepare_bibliography\<close>: the value of the
  local variable \<^verbatim>\<open>bib_name\<close> when the lookup is over, \<^term>\<open>None\<close> when the document
  has no \<^verbatim>\<open>\bibliography{...}\<close> and the variable is never bound, or the exception that
  the existence test or the directory listing raises.
\<close>

definition bib_lookup :: "'p file_system \<Rightarrow> 'p \<Rightarrow> string \<Rightarrow> py_error + string option" where
  "bib_lookup fs work_dir content =
     (case re_search (braced_directive ''bibliography'') content of
        None \<Rightarrow> Inr None
      | Some (n, g) \<Rightarrow>
          (let bib_name = (if suffix ''.bib'' g then g else g @ ''.bib'')
           in case path_exists fs (join_path fs work_dir bib_name) of
                Inl e \<Rightarrow> Inl e
              | Inr True \<Rightarrow> Inr (Some bib_name)
              | Inr False \<Rightarrow>
                  (case glob_bib fs work_dir of
                     Inl e \<Rightarrow> Inl e
                   | Inr [] \<Rightarrow> Inr (Some bib_name)
                   | Inr (f # _) \<Rightarrow> Inr (Some (path_name fs f)))))"

text \<open>
  The pattern \<^verbatim>\<open>\\bibliographystyle\{[^}]*\}\s*\n?\<close>, replaced by the empty text. The
  greedy \<^verbatim>\<open>\s*\<close> takes the whole run of white space, line feeds included, so the
  optional line feed after it matches nothing.
\<close>

definition bibliographystyle_directive :: matcher where
  "bibliographystyle_directive s =
     (case lit (bs # ''bibliographystyle{'') s of
        None \<Rightarrow> None
      | Some r \<Rightarrow>
          (case arg_to_brace r of
             None \<Rightarrow> None
           | Some (a, rest) \<Rightarrow> Some (length s - length (dropWhile is_space rest), [])))"

text \<open>\<^verbatim>\<open>_prepare_bibliography\<close>: the text that is returned, or the exception of the
  lookup.\<close>

definition prepare_bibliography :: "'p file_system \<Rightarrow> 'p \<Rightarrow> string \<Rightarrow> py_error + string" where
  "prepare_bibliography fs work_dir content =
     (case bib_lookup fs work_dir content of
        Inl e \<Rightarrow> Inl e
      | Inr bib_name \<Rightarrow> Inr (re_sub bibliographystyle_directive content))"

text \<open>
  What the stage removes, said without the scan: going through the text from left to
  right, a character is kept unless a style directive starts at it, that is the
  directive's name with its opening brace and a closing brace somewhere after it; a
  directive goes with its argument, which ends at the first closing brace, and with all
  the white space that follows, up to the first character that is not white space.
\<close>

inductive bibstyle_removed :: "string \<Rightarrow> string \<Rightarrow> bool" where
  style_done: "bibstyle_removed [] []"
| style_keep: "\<not> (prefix (bs # ''bibliographystyle{'') (c # s)
        \<and> CHR ''}'' \<in> set (drop (length (bs # ''bibliographystyle{'')) (c # s)))
     \<Longrightarrow> bibstyle_removed s t \<Longrightarrow> bibstyle_removed (c # s) (c # t)"
| style_drop: "CHR ''}'' \<notin> set arg \<Longrightarrow> list_all is_space ws \<Longrightarrow> takeWhile is_space r = []
     \<Longrightarrow> bibstyle_removed r t
     \<Longrightarrow> bibstyle_removed (bs # ''bibliographystyle{'' @ arg @ ''}'' @ ws @ r) t"

section \<open>Metadata extractor: the title\<close>

text \<open>
  The piece \<^verbatim>\<open>(.+?)\}\<close> under \<^verbatim>\<open>re.DOTALL\<close>: group 1 is one character, whatever it
  is, and then the shortest text up to a closing brace.
\<close>

definition lazy_group :: "string \<Rightarrow> string option" where
  "lazy_group r =
     (case r of
        [] \<Rightarrow> None
      | c # cs \<Rightarrow>
          if CHR ''}'' \<in> set cs then Some (c # takeWhile (\<lambda>x. x \<noteq> CHR ''}'') cs) else None)"

text \<open>The patterns \<^verbatim>\<open>\\icmltitle\{(.+?)\}\<close> and \<^verbatim>\<open>\\title\{(.+?)\}\<close> at the head of
  the text.\<close>

definition title_macro :: "string \<Rightarrow> string \<Rightarrow> string option" where
  "title_macro name s = (case lit (name @ ''{'') s of None \<Rightarrow> None | Some r \<Rightarrow> lazy_group r)"

text \<open>
  The pattern \<^verbatim>\<open>\\neurips.*?title\{(.+?)\}\<close> at the head of the text: the lazy
  \<^verbatim>\<open>.*?\<close> stops at the first place where the rest of the pattern matches.
\<close>

definition neurips_title :: "string \<Rightarrow> string option" where
  "neurips_title s =
     (case lit (bs # ''neurips'') s of
        None \<Rightarrow> None
      | Some r \<Rightarrow> re_search (title_macro ''title'') r)"

text \<open>The substitutions of \<^verbatim>\<open>_clean_tex\<close>. The first four put group 1 in the place of
  a command with one argument.\<close>

definition command_with_arg :: "string \<Rightarrow> matcher" where
  "command_with_arg name s =
     (case lit (bs # name @ ''{'') s of
        None \<Rightarrow> None
      | Some r \<Rightarrow>
          (case arg_to_brace r of
             None \<Rightarrow> None
           | Some (a, rest) \<Rightarrow> Some (length s - length rest, a)))"

text \<open>\<^verbatim>\<open>\\[a-zA-Z]+\{([^}]*)\}\<close>: the greedy run of letters has to be followed by the
  opening brace.\<close>

definition any_command_with_arg :: matcher where
  "any_command_with_arg s =
     (case s of
        [] \<Rightarrow> None
      | c # r \<Rightarrow>
          if c = bs \<and> takeWhile is_alpha r \<noteq> [] then
            (case lit ''{'' (dropWhile is_alpha r) of
               None \<Rightarrow> None
             | Some r2 \<Rightarrow>
                 (case arg_to_brace r2 of
                    None \<Rightarrow> None
                  | Some (a, rest) \<Rightarrow> Some (length s - length rest, a)))
          else None)"

definition a_brace :: matcher where
  "a_brace s = (case s of [] \<Rightarrow> None | c # r \<Rightarrow> if c = CHR ''{'' \<or> c = CHR ''}'' then Some (1, []) else None)"

definition white_space_run :: matcher where
  "white_space_run s =
     (if takeWhile is_space s = [] then None else Some (length (takeWhile is_space s), '' ''))"

definition clean_tex :: "string \<Rightarrow> string" where
  "clean_tex text0 =
     strip (re_sub white_space_run (re_sub a_brace (re_sub any_command_with_arg
       (re_sub (command_with_arg ''emph'') (re_sub (command_with_arg ''textit'')
         (re_sub (command_with_arg ''textbf'') text0))))))"

text \<open>The loop over the title patterns: the first pattern that matches gives the title
  and ends the loop.\<close>

fun first_match :: "(string \<Rightarrow> string option) list \<Rightarrow> string \<Rightarrow> string option" where
  "first_match [] content = None"
| "first_match (pattern # patterns) content =
     (case re_search pattern content of
        Some g \<Rightarrow> Some g
      | None \<Rightarrow> first_match patterns content)"

definition title_patterns :: "(string \<Rightarrow> string option) list" where
  "title_patterns = [title_macro (bs # ''icmltitle''), neurips_title, title_macro (bs # ''title'')]"

text \<open>The field \<^verbatim>\<open>title\<close> of the metadata that \<^verbatim>\<open>_extract_metadata\<close> returns; it is
  empty when no pattern matches.\<close>

definition extract_title :: "string \<Rightarrow> string" where
  "extract_title content =
     (case first_match title_patterns content of Some g \<Rightarrow> clean_tex g | None \<Rightarrow> [])"

section \<open>Include resolver\<close>

text \<open>
  \<^verbatim>\<open>re.sub\<close> with a function as replacement: the function is called on each match,
  from left to right, with the whole match and group 1. A call may raise, and in this
  model a call may also not return (\<^term>\<open>None\<close>); either ends the substitution.
\<close>

fun re_sub_call ::
  "(string \<Rightarrow> (nat \<times> string) option) \<Rightarrow> (string \<Rightarrow> string \<Rightarrow> (py_error + string) option)
     \<Rightarrow> nat \<Rightarrow> string \<Rightarrow> (py_error + string) option" where
  "re_sub_call mt repl k [] = Some (Inr [])"
| "re_sub_call mt repl k (c # cs) =
     (if 0 < k then re_sub_call mt repl (k - 1) cs
      else case mt (c # cs) of
        None \<Rightarrow>
          (case re_sub_call mt repl 0 cs of
             None \<Rightarrow> None
           | Some (Inl e) \<Rightarrow> Some (Inl e)
           | Some (Inr rest) \<Rightarrow> Some (Inr (c # rest)))
      | Some (n, g) \<Rightarrow>
          (case repl (take n (c # cs)) g of
             None \<Rightarrow> None
           | Some (Inl e) \<Rightarrow> Some (Inl e)
           | Some (Inr r) \<Rightarrow>
               (case re_sub_call mt repl (n - 1) cs of
                  None \<Rightarrow> None
                | Some (Inl e) \<Rightarrow> Some (Inl e)
                | Some (Inr rest) \<Rightarrow> Some (Inr (r @ rest)))))"

text \<open>The inner function \<^verbatim>\<open>_replace_input\<close>; \<^verbatim>\<open>resolve\<close> is the recursive call.\<close>

definition replace_input ::
  "(string \<Rightarrow> 'p \<Rightarrow> nat \<Rightarrow> (py_error + string) option) \<Rightarrow> 'p file_system \<Rightarrow> 'p \<Rightarrow> nat
     \<Rightarrow> string \<Rightarrow> string \<Rightarrow> (py_error + string) option" where
  "replace_input resolve fs work_dir depth whole group1 =
     (let filename = (if suffix ''.tex'' group1 then group1 else group1 @ ''.tex'');
          path = join_path fs work_dir filename
      in case path_exists fs path of
           Inl e \<Rightarrow> Some (Inl e)
         | Inr True \<Rightarrow>
             (case read_text fs path of
                Inl e \<Rightarrow> Some (Inl e)
              | Inr sub \<Rightarrow> resolve sub (parent fs path) (depth + 1))
         | Inr False \<Rightarrow> Some (Inr whole))"

text \<open>
  \<^verbatim>\<open>_resolve_includes\<close>. The first argument is the number of nested calls that the
  model may still make; the result is \<^term>\<open>None\<close> when it is used up, so that a
  recursion without end would be visible as \<^term>\<open>None\<close> for every such number.
\<close>

fun resolve_includes ::
  "nat \<Rightarrow> 'p file_system \<Rightarrow> string \<Rightarrow> 'p \<Rightarrow> nat \<Rightarrow> (py_error + string) option" where
  "resolve_includes 0 fs content work_dir depth = None"
| "resolve_includes (Suc fuel) fs content work_dir depth =
     (if 10 < depth then Some (Inr content)
      else case re_sub_call (braced_directive ''input'')
                  (replace_input (resolve_includes fuel fs) fs work_dir depth) 0 content of
             None \<Rightarrow> None
           | Some (Inl e) \<Rightarrow> Some (Inl e)
           | Some (Inr content1) \<Rightarrow>
               re_sub_call (braced_directive ''include'')
                 (replace_input (resolve_includes fuel fs) fs work_dir depth) 0 content1)"

section \<open>Archive patcher: repackaging\<close>

datatype compression = ZIP_STORED | ZIP_DEFLATED

datatype kind = RegularFile | Directory

text \<open>
  The extracted archive as \<^verbatim>\<open>epub_dir.rglob("*")\<close> lists it: each entry below the
  directory with the parts of its path relative to the directory and with its kind.
  \<^verbatim>\<open>sorted\<close> compares paths part by part, which is the order of lists of strings.
\<close>

type_synonym dir_entry = "string list \<times> kind"

text \<open>\<^verbatim>\<open>sep.join(parts)\<close>.\<close>

fun join :: "string \<Rightarrow> string list \<Rightarrow> string" where
  "join sep [] = []"
| "join sep [x] = x"
| "join sep (x # y # ys) = x @ sep @ join sep (y # ys)"

text \<open>\<^verbatim>\<open>str(path.relative_to(epub_dir))\<close> and \<^verbatim>\<open>path.name\<close>.\<close>

definition arcname :: "string list \<Rightarrow> string" where
  "arcname parts = join ''/'' parts"

definition name_of :: "string list \<Rightarrow> string" where
  "name_of parts = (if parts = [] then [] else last parts)"

text \<open>
  \<^verbatim>\<open>_repackage_epub\<close>: the entries of the archive that is written, in the order of
  writing, each with its name and its compression. \<^verbatim>\<open>ZipFile.write\<close> names a
  directory with a slash at the end and stores it.
\<close>

definition mimetype_entry :: "dir_entry list \<Rightarrow> (string \<times> compression) list" where
  "mimetype_entry entries =
     (case find (\<lambda>e. fst e = [''mimetype'']) entries of
        None \<Rightarrow> []
      | Some (p, k) \<Rightarrow>
          [(if k = Directory then ''mimetype/'' else ''mimetype'', ZIP_STORED)])"

definition other_files :: "dir_entry list \<Rightarrow> string list list" where
  "other_files entries =
     map fst (filter (\<lambda>e. snd e = RegularFile \<and> name_of (fst e) \<noteq> ''mimetype'')
                (sort_key fst entries))"

definition repackage_epub :: "dir_entry list \<Rightarrow> (string \<times> compression) list" where
  "repackage_epub entries =
     mimetype_entry entries @ map (\<lambda>p. (arcname p, ZIP_DEFLATED)) (other_files entries)"

section \<open>Rewrite pipeline: the two-column wrapper\<close>

text \<open>
  The white space of \<^verbatim>\<open>\s*\<close> up to its last line feed, when it has one: the longest
  part of the run after which \<^verbatim>\<open>$\<close> matches in front of a line feed.
\<close>

fun upto_last_nl :: "string \<Rightarrow> string option" where
  "upto_last_nl [] = None"
| "upto_last_nl (c # cs) =
     (case upto_last_nl cs of
        Some p \<Rightarrow> Some (c # p)
      | None \<Rightarrow> if c = nl then Some [] else None)"

text \<open>
  The pattern \<^verbatim>\<open>\]\s*$\<close> under \<^verbatim>\<open>re.MULTILINE\<close> at the head of the text: the length
  of the match. The greedy run of white space is taken whole when it reaches the end
  of the text; otherwise it is followed by a character that is not a line feed, and
  backtracking shortens it to the last line feed in it.
\<close>

definition closing_bracket_line :: "string \<Rightarrow> nat option" where
  "closing_bracket_line s =
     (case s of
        [] \<Rightarrow> None
      | c # r \<Rightarrow>
          if c = CHR '']'' then
            (if dropWhile is_space r = [] then Some (Suc (length r))
             else map_option (\<lambda>p. Suc (length p)) (upto_last_nl (takeWhile is_space r)))
          else None)"

text \<open>
  \<^verbatim>\<open>re.sub(r"^\]\s*$", "", content, flags=re.MULTILINE)\<close>. The flag \<^verbatim>\<open>bol\<close> says that
  the scan is at the start of the text or just after a line feed, where \<^verbatim>\<open>^\<close>
  matches.
\<close>

fun sub_bracket_lines :: "bool \<Rightarrow> nat \<Rightarrow> string \<Rightarrow> string" where
  "sub_bracket_lines bol k [] = []"
| "sub_bracket_lines bol k (c # cs) =
     (if 0 < k then sub_bracket_lines (c = nl) (k - 1) cs
      else case (if bol then closing_bracket_line (c # cs) else None) of
        Some n \<Rightarrow> sub_bracket_lines (c = nl) (n - 1) cs
      | None \<Rightarrow> c # sub_bracket_lines (c = nl) 0 cs)"

text \<open>The two substitutions of \<^verbatim>\<open>_strip_conference_commands\<close> that remove the
  two-column wrapper.\<close>

definition strip_twocolumn :: "string \<Rightarrow> string" where
  "strip_twocolumn content =
     sub_bracket_lines True 0 (re_sub (literal (bs # ''twocolumn['') []) content)"

text \<open>The white space at the head of a text reaches the end of the text or holds a line
  feed: a closing bracket in front of such a text is alone on its line.\<close>

definition eol_after_spaces :: "string \<Rightarrow> bool" where
  "eol_after_spaces s \<longleftrightarrow> dropWhile is_space s = [] \<or> nl \<in> set (takeWhile is_space s)"

text \<open>
  What the two substitutions delete, said without the scans. In the first, going
  through the text from left to right, a character is kept unless an opening token
  starts at it, and an opening token goes. In the second, a character is kept unless
  it is a closing bracket that starts a line and is alone on it; such a bracket goes
  with the white space after it, up to the end of the text when the white space reaches
  it and otherwise up to the last line feed of the white space, which stays. The flag is
  the one of the scan: the text starts a line.
\<close>

inductive openings_removed :: "string \<Rightarrow> string \<Rightarrow> bool" where
  openings_done: "openings_removed [] []"
| openings_keep: "\<not> prefix (bs # ''twocolumn['') (c # s) \<Longrightarrow> openings_removed s t
     \<Longrightarrow> openings_removed (c # s) (c # t)"
| openings_drop: "openings_removed s t \<Longrightarrow> openings_removed (bs # ''twocolumn['' @ s) t"

inductive bracket_lines_removed :: "bool \<Rightarrow> string \<Rightarrow> string \<Rightarrow> bool" where
  lines_done: "bracket_lines_removed bol [] []"
| lines_keep: "\<not> (bol \<and> c = CHR '']'' \<and> eol_after_spaces s)
     \<Longrightarrow> bracket_lines_removed (c = nl) s t \<Longrightarrow> bracket_lines_removed bol (c # s) (c # t)"
| lines_drop: "list_all is_space ws \<Longrightarrow> r = [] \<or> hd r = nl \<and> \<not> eol_after_spaces (tl r)
     \<Longrightarrow> bracket_lines_removed (last (CHR '']'' # ws) = nl) r t
     \<Longrightarrow> bracket_lines_removed True (CHR '']'' # ws @ r) t"

section \<open>Document rebuilder\<close>

record PaperMetadata =
  title :: string
  authors :: "string list"
  abstract :: string
  date :: string

definition begin_document :: string where
  "begin_document = bs # ''begin{document}''"

definition end_document :: string where
  "end_document = bs # ''end{document}''"

text \<open>
  The pattern \<^verbatim>\<open>\\begin\{document\}(.*?)\\end\{document\}\<close> under \<^verbatim>\<open>re.DOTALL\<close> at the
  head of the text: group 1 ends at the first end marker after the begin marker.
\<close>

definition document_body :: "string \<Rightarrow> string option" where
  "document_body s =
     (case lit begin_document s of
        None \<Rightarrow> None
      | Some r \<Rightarrow> map_option (\<lambda>j. take j r) (find_sub end_document r))"

text \<open>The body that \<^verbatim>\<open>_rebuild_document\<close> keeps: group 1 of the first match, or the
  whole buffer when the pattern does not match.\<close>

definition body_of :: "string \<Rightarrow> string" where
  "body_of content = (case re_search document_body content of Some b \<Rightarrow> b | None \<Rightarrow> content)"

definition fixed_preamble :: string where
  "fixed_preamble =
     bs # ''documentclass{article}'' @ [nl] @
     bs # ''usepackage{amsmath}'' @ [nl] @
     bs # ''usepackage{amssymb}'' @ [nl] @
     bs # ''usepackage{graphicx}'' @ [nl] @
     bs # ''usepackage{hyperref}'' @ [nl] @
     bs # ''usepackage{booktabs}'' @ [nl]"

definition preamble_of :: "PaperMetadata \<Rightarrow> string" where
  "preamble_of meta =
     fixed_preamble
     @ (if title meta \<noteq> [] then bs # ''title{'' @ title meta @ ''}'' @ [nl] else [])
     @ (if authors meta \<noteq> []
        then bs # ''author{'' @ join ('' '' @ bs # ''and '') (authors meta) @ ''}'' @ [nl]
        else [])"

definition rebuild_document :: "string \<Rightarrow> PaperMetadata \<Rightarrow> string" where
  "rebuild_document content meta =
     preamble_of meta @ [nl] @ begin_document @ [nl]
     @ (if title meta \<noteq> [] then bs # ''maketitle'' @ [nl] else [])
     @ body_of content
     @ [nl] @ end_document @ [nl]"

text \<open>The indices at which a text occurs in another, in increasing order.\<close>

definition occurrences :: "string \<Rightarrow> string \<Rightarrow> nat list" where
  "occurrences sub s = filter (\<lambda>i. prefix sub (drop i s)) [0..<Suc (length s)]"

section \<open>Rewrite pipeline: the simple macro expander\<close>

text \<open>
  The two patterns for macro definitions share their pieces. The head is
  \<^verbatim>\<open>\\(?:new|renew)command\{\<close>; the two alternatives start with different letters.
\<close>

definition newcommand_head :: "string \<Rightarrow> string option" where
  "newcommand_head s =
     (case lit (bs # ''newcommand{'') s of
        Some r \<Rightarrow> Some r
      | None \<Rightarrow> lit (bs # ''renewcommand{'') s)"

text \<open>\<^verbatim>\<open>(\\[a-zA-Z]+)\}\<close>: the command name with its backslash, and the text after the
  brace. The greedy run of letters has to be followed by the brace.\<close>

definition command_name :: "string \<Rightarrow> (string \<times> string) option" where
  "command_name r =
     (case r of
        [] \<Rightarrow> None
      | c # r1 \<Rightarrow>
          if c = bs \<and> takeWhile is_alpha r1 \<noteq> [] then
            (case lit ''}'' (dropWhile is_alpha r1) of
               None \<Rightarrow> None
             | Some r2 \<Rightarrow> Some (bs # takeWhile is_alpha r1, r2))
          else None)"

text \<open>
  \<^verbatim>\<open>([^{}]*(?:\{[^{}]*\}[^{}]*)*)\}\<close>: the replacement text and the text after its
  closing brace. The flag says that the scan is inside a nested pair of braces. The
  next character decides each step: outside a pair an opening brace starts one and a
  closing brace ends the match; inside a pair an opening brace cannot be matched and a
  closing brace ends the pair. So the pattern matches in at most one way.
\<close>

fun macro_body :: "bool \<Rightarrow> string \<Rightarrow> (string \<times> string) option" where
  "macro_body inside [] = None"
| "macro_body inside (c # cs) =
     (if c = CHR ''{'' then
        (if inside then None else map_option (apfst ((#) c)) (macro_body True cs))
      else if c = CHR ''}'' then
        (if inside then map_option (apfst ((#) c)) (macro_body False cs) else Some ([], cs))
      else map_option (apfst ((#) c)) (macro_body inside cs))"

text \<open>The pattern of the \<^verbatim>\<open>finditer\<close> loop at the head of the text: the length of
  the match, group 1 and group 2.\<close>

definition macro_definition :: "string \<Rightarrow> (nat \<times> string \<times> string) option" where
  "macro_definition s =
     (case newcommand_head s of
        None \<Rightarrow> None
      | Some r \<Rightarrow>
          (case command_name r of
             None \<Rightarrow> None
           | Some (cmd, r2) \<Rightarrow>
               (case lit ''{'' r2 of
                  None \<Rightarrow> None
                | Some r3 \<Rightarrow>
                    (case macro_body False r3 of
                       None \<Rightarrow> None
                     | Some (replacement, rest) \<Rightarrow>
                         Some (length s - length rest, cmd, replacement)))))"

text \<open>\<^verbatim>\<open>(?:\[\d+\])?\<close>: the text after the optional argument count.\<close>

definition is_digit :: "char \<Rightarrow> bool" where
  "is_digit c \<longleftrightarrow> CHR ''0'' \<le> c \<and> c \<le> CHR ''9''"

definition arg_count :: "string \<Rightarrow> string" where
  "arg_count r =
     (case r of
        [] \<Rightarrow> r
      | c # r1 \<Rightarrow>
          if c = CHR ''['' \<and> takeWhile is_digit r1 \<noteq> [] then
            (case lit '']'' (dropWhile is_digit r1) of None \<Rightarrow> r | Some r2 \<Rightarrow> r2)
          else r)"

text \<open>The pattern that removes the definitions, with or without an argument count,
  and the white space after them.\<close>

definition macro_definition_removed :: matcher where
  "macro_definition_removed s =
     (case newcommand_head s of
        None \<Rightarrow> None
      | Some r \<Rightarrow>
          (case command_name r of
             None \<Rightarrow> None
           | Some (cmd, r2) \<Rightarrow>
               (case lit ''{'' (arg_count r2) of
                  None \<Rightarrow> None
                | Some r3 \<Rightarrow>
                    (case macro_body False r3 of
                       None \<Rightarrow> None
                     | Some (replacement, rest) \<Rightarrow>
                         Some (length s - length (dropWhile is_space rest), [])))))"

text \<open>\<^verbatim>\<open>re.finditer\<close>: the groups of the leftmost matches that do not overlap.\<close>

fun re_finditer :: "(string \<Rightarrow> (nat \<times> 'g) option) \<Rightarrow> nat \<Rightarrow> string \<Rightarrow> 'g list" where
  "re_finditer mt k [] = []"
| "re_finditer mt k (c # cs) =
     (if 0 < k then re_finditer mt (k - 1) cs
      else case mt (c # cs) of
        Some (n, g) \<Rightarrow> g # re_finditer mt (n - 1) cs
      | None \<Rightarrow> re_finditer mt 0 cs)"

text \<open>\<^verbatim>\<open>macros[cmd] = replacement\<close> on a dictionary, which keeps its keys in the order
  of their first insertion.\<close>

fun dict_set :: "'k \<Rightarrow> 'v \<Rightarrow> ('k \<times> 'v) list \<Rightarrow> ('k \<times> 'v) list" where
  "dict_set k v [] = [(k, v)]"
| "dict_set k v ((k', v') # ps) = (if k' = k then (k, v) # ps else (k', v') # dict_set k v ps)"

text \<open>The macro table: the definitions whose replacement text has no parameter mark.\<close>

definition macro_table :: "string \<Rightarrow> (string \<times> string) list" where
  "macro_table content =
     foldl (\<lambda>macros (cmd, replacement).
              if CHR ''#'' \<notin> set replacement then dict_set cmd replacement macros else macros)
       [] (re_finditer macro_definition 0 content)"

text \<open>
  A string given to \<^verbatim>\<open>re.sub\<close> as replacement is a template: \<^verbatim>\<open>re\<close> compiles it
  before it looks for a match, and the backslash is its escape character. The pattern
  of a macro has no group, so a template can only refer to the whole match.
\<close>

datatype template_item = Literal char | WholeMatch

definition is_octal :: "char \<Rightarrow> bool" where
  "is_octal c \<longleftrightarrow> CHR ''0'' \<le> c \<and> c \<le> CHR ''7''"

definition digit_value :: "char \<Rightarrow> nat" where
  "digit_value c = of_char c - of_char (CHR ''0'')"

text \<open>The escape \<^verbatim>\<open>\g<name>\<close>, from the text after the letter: only group 0 exists,
  every other name or number raises, and so does a name without its brackets. A number
  is a run of ASCII digits, as from Python 3.12 on.\<close>

definition group_escape :: "string \<Rightarrow> py_error + template_item list \<times> nat" where
  "group_escape r =
     (case r of
        [] \<Rightarrow> Inl ReError
      | c # r1 \<Rightarrow>
          if c \<noteq> CHR ''<'' then Inl ReError
          else let name = takeWhile (\<lambda>x. x \<noteq> CHR ''>'') r1 in
            if length name = length r1 then Inl ReError
            else if name = [] then Inl ReError
            else if list_all is_digit name then
              (if list_all (\<lambda>x. x = CHR ''0'') name then Inr ([WholeMatch], length name + 3)
               else Inl ReError)
            else Inl ReError)"

text \<open>
  One escape of a template, from the text after the backslash: the items it stands for
  and the number of characters after the backslash that it takes. \<^verbatim>\<open>ReError\<close> is
  the exception of the template compiler (\<^verbatim>\<open>re.error\<close>, or \<^verbatim>\<open>IndexError\<close> for an
  unknown group name).
\<close>

definition template_escape :: "string \<Rightarrow> py_error + template_item list \<times> nat" where
  "template_escape r =
     (case r of
        [] \<Rightarrow> Inl ReError
      | c # r1 \<Rightarrow>
          if c = CHR ''g'' then group_escape r1
          else if c = CHR ''0'' then
            (case r1 of
               [] \<Rightarrow> Inr ([Literal (char_of (0::nat))], 1)
             | d1 # r2 \<Rightarrow>
                 if is_octal d1 then
                   (case r2 of
                      [] \<Rightarrow> Inr ([Literal (char_of (digit_value d1))], 2)
                    | d2 # _ \<Rightarrow>
                        if is_octal d2
                        then Inr ([Literal (char_of (8 * digit_value d1 + digit_value d2))], 3)
                        else Inr ([Literal (char_of (digit_value d1))], 2))
                 else Inr ([Literal (char_of (0::nat))], 1))
          else if is_digit c then
            (case r1 of
               d1 # d2 # _ \<Rightarrow>
                 if is_octal c \<and> is_octal d1 \<and> is_octal d2 then
                   (let v = 64 * digit_value c + 8 * digit_value d1 + digit_value d2
                    in if 255 < v then Inl ReError else Inr ([Literal (char_of v)], 3))
                 else Inl ReError
             | _ \<Rightarrow> Inl ReError)
          else if c = CHR ''a'' then Inr ([Literal (CHR 0x07)], 1)
          else if c = CHR ''b'' then Inr ([Literal (CHR 0x08)], 1)
          else if c = CHR ''f'' then Inr ([Literal (CHR 0x0C)], 1)
          else if c = CHR ''n'' then Inr ([Literal nl], 1)
          else if c = CHR ''r'' then Inr ([Literal (CHR 0x0D)], 1)
          else if c = CHR ''t'' then Inr ([Literal (CHR 0x09)], 1)
          else if c = CHR ''v'' then Inr ([Literal (CHR 0x0B)], 1)
          else if c = bs then Inr ([Literal bs], 1)
          else if is_alpha c then Inl ReError
          else Inr ([Literal bs, Literal c], 1))"

fun parse_template :: "nat \<Rightarrow> string \<Rightarrow> py_error + template_item list" where
  "parse_template k [] = Inr []"
| "parse_template k (c # cs) =
     (if 0 < k then parse_template (k - 1) cs
      else if c = bs then
        (case template_escape cs of
           Inl e \<Rightarrow> Inl e
         | Inr (items, n) \<Rightarrow>
             (case parse_template n cs of
                Inl e \<Rightarrow> Inl e
              | Inr rest \<Rightarrow> Inr (items @ rest)))
      else
        (case parse_template 0 cs of
           Inl e \<Rightarrow> Inl e
         | Inr rest \<Rightarrow> Inr (Literal c # rest)))"

definition expand_template :: "template_item list \<Rightarrow> string \<Rightarrow> string" where
  "expand_template items whole =
     concat (map (\<lambda>item. case item of Literal c \<Rightarrow> [c] | WholeMatch \<Rightarrow> whole) items)"

text \<open>The pattern \<^verbatim>\<open>re.escape(cmd) + r"(?![a-zA-Z])"\<close>: the command, not followed by a
  letter.\<close>

definition macro_use :: "string \<Rightarrow> string \<Rightarrow> bool" where
  "macro_use cmd s \<longleftrightarrow>
     prefix cmd s \<and> (case drop (length cmd) s of [] \<Rightarrow> True | c # _ \<Rightarrow> \<not> is_alpha c)"

text \<open>\<^verbatim>\<open>re.sub(pattern, replacement, content)\<close> for one macro.\<close>

definition expand_macro :: "string \<Rightarrow> string \<Rightarrow> string \<Rightarrow> py_error + string" where
  "expand_macro cmd replacement content =
     (case parse_template 0 replacement of
        Inl e \<Rightarrow> Inl e
      | Inr items \<Rightarrow>
          Inr (re_sub (\<lambda>s. if macro_use cmd s
                            then Some (length cmd, expand_template items cmd) else None)
                 content))"

text \<open>The loop over the macro table.\<close>

fun expand_macros :: "(string \<times> string) list \<Rightarrow> string \<Rightarrow> py_error + string" where
  "expand_macros [] content = Inr content"
| "expand_macros ((cmd, replacement) # macros) content =
     (case expand_macro cmd replacement content of
        Inl e \<Rightarrow> Inl e
      | Inr content' \<Rightarrow> expand_macros macros content')"

text \<open>
  The two patterns for comment commands,
  \<^verbatim>\<open>\\(?:todo|davide|sasha|joel|logan|wil|vezhnick)\{[^}]*\}\<close> and the same with
  \<^verbatim>\<open>\[[^\]]*\]\<close> in front of the argument. No name is the start of another, so
  at most one alternative fits.
\<close>

definition comment_commands :: "string list" where
  "comment_commands = [''todo'', ''davide'', ''sasha'', ''joel'', ''logan'', ''wil'', ''vezhnick'']"

definition comment_head :: "string \<Rightarrow> string \<Rightarrow> string option" where
  "comment_head opening s =
     (case find (\<lambda>name. prefix (bs # name @ opening) s) comment_commands of
        None \<Rightarrow> None
      | Some name \<Rightarrow> Some (drop (length (bs # name @ opening)) s))"

definition comment_command :: matcher where
  "comment_command s =
     (case comment_head ''{'' s of
        None \<Rightarrow> None
      | Some r \<Rightarrow>
          (case arg_to_brace r of
             None \<Rightarrow> None
           | Some (a, rest) \<Rightarrow> Some (length s - length rest, [])))"

definition comment_command_with_option :: matcher where
  "comment_command_with_option s =
     (case comment_head ''['' s of
        None \<Rightarrow> None
      | Some r \<Rightarrow>
          (case lit '']{'' (dropWhile (\<lambda>c. c \<noteq> CHR '']'') r) of
             None \<Rightarrow> None
           | Some r2 \<Rightarrow>
               (case arg_to_brace r2 of
                  None \<Rightarrow> None
                | Some (a, rest) \<Rightarrow> Some (length s - length rest, []))))"

text \<open>\<^verbatim>\<open>_expand_simple_macros\<close>.\<close>

definition expand_simple_macros :: "string \<Rightarrow> py_error + string" where
  "expand_simple_macros content =
     (let macros = macro_table content;
          content1 = re_sub macro_definition_removed content
      in case expand_macros macros content1 of
           Inl e \<Rightarrow> Inl e
         | Inr content2 \<Rightarrow>
             Inr (re_sub comment_command_with_option (re_sub comment_command content2)))"

section \<open>Archive patcher: citation linking\<close>

definition citation_marker :: string where
  "citation_marker = ''<span class='' @ [dq] @ ''citation'' @ [dq] @ '' data-cites='' @ [dq]"

lemma find_sub_bound: "find_sub sub s = Some i \<Longrightarrow> i \<le> length s"
  by (induction s arbitrary: i) (auto split: if_splits)

lemma find_from_bounds: "find_from sub s start = Some i \<Longrightarrow> start \<le> i \<and> i \<le> length s"
  by (auto simp: find_from_def split: if_splits dest: find_sub_bound)

text \<open>
  The inner loop of \<^verbatim>\<open>_link_citations\<close>, which looks for the closing tag of a
  citation span by counting nested spans. The last argument is the variable
  \<^verbatim>\<open>span_end\<close>, which is \<^term>\<open>None\<close> as long as it has not been bound; the loop
  binds it only when the depth comes back to zero, and the result is its value when the
  loop ends.
\<close>

function span_scan :: "string \<Rightarrow> nat \<Rightarrow> nat \<Rightarrow> nat option \<Rightarrow> nat option" where
  "span_scan content depth scan span_end =
     (if 0 < depth \<and> scan < length content then
        (case find_from ''</span>'' content scan of
           None \<Rightarrow> span_end
         | Some next_close \<Rightarrow>
             (case find_from ''<span'' content scan of
                None \<Rightarrow>
                  span_scan content (depth - 1) (next_close + 7)
                    (if depth - 1 = 0 then Some (next_close + 7) else span_end)
              | Some next_open \<Rightarrow>
                  if next_open < next_close
                  then span_scan content (depth + 1) (next_open + 5) span_end
                  else span_scan content (depth - 1) (next_close + 7)
                         (if depth - 1 = 0 then Some (next_close + 7) else span_end)))
      else span_end)"
  by pat_completeness auto
termination
  by (relation "measure (\<lambda>(content, depth, scan, span_end). length content - scan)")
     (auto dest!: find_from_bounds)

declare span_scan.simps [simp del]

text \<open>\<^verbatim>\<open>cites_str.split()[0]\<close>: the first run of characters that are not white space;
  \<^term>\<open>None\<close> when there is none and the index raises.\<close>

definition first_word :: "string \<Rightarrow> string option" where
  "first_word s =
     (let w = takeWhile (\<lambda>c. \<not> is_space c) (dropWhile is_space s)
      in if w = [] then None else Some w)"

text \<open>
  The loop \<^verbatim>\<open>while True\<close> over the citation spans of one content fragment. The state
  is the position, the variable \<^verbatim>\<open>span_end\<close> and the text emitted so far; the result
  is the new text of the fragment with the last value of \<^verbatim>\<open>span_end\<close>, or the
  exception raised. The first argument bounds the number of iterations: \<^term>\<open>None\<close>
  says that the bound was not enough.
\<close>

fun link_loop ::
  "nat \<Rightarrow> string \<Rightarrow> string set \<Rightarrow> string \<Rightarrow> nat \<Rightarrow> nat option \<Rightarrow> string
     \<Rightarrow> (py_error + string \<times> nat option) option" where
  "link_loop 0 bib_chapter bib_ids content pos span_end result = None"
| "link_loop (Suc fuel) bib_chapter bib_ids content pos span_end result =
     (case find_from citation_marker content pos of
        None \<Rightarrow> Some (Inr (result @ drop pos content, span_end))
      | Some idx \<Rightarrow>
          (case find_from [dq] content (idx + length citation_marker) of
             None \<Rightarrow> Some (Inl ValueError)
           | Some q_end \<Rightarrow>
               (case find_from ''>'' content q_end of
                  None \<Rightarrow> Some (Inl ValueError)
                | Some gt \<Rightarrow>
                    (case span_scan content 1 (gt + 1) span_end of
                       None \<Rightarrow> Some (Inl UnboundLocalError)
                     | Some end' \<Rightarrow>
                         (case first_word (slice content (idx + length citation_marker) q_end) of
                            None \<Rightarrow> Some (Inl IndexError)
                          | Some first_key \<Rightarrow>
                              link_loop fuel bib_chapter bib_ids content end' (Some end')
                                (result @ slice content pos idx @
                                  (if ''ref-'' @ first_key \<in> bib_ids
                                   then ''<a href='' @ [dq] @ bib_chapter @ ''#'' @ ''ref-''
                                          @ first_key @ [dq] @ ''>''
                                          @ slice content idx end' @ ''</a>''
                                   else slice content idx end')))))))"

text \<open>One content fragment: it is left alone when it has no citation attribute.\<close>

definition link_fragment ::
  "nat \<Rightarrow> string \<Rightarrow> string set \<Rightarrow> string \<Rightarrow> nat option
     \<Rightarrow> (py_error + string \<times> nat option) option" where
  "link_fragment fuel bib_chapter bib_ids content span_end =
     (if \<not> sublist ''data-cites='' content then Some (Inr (content, span_end))
      else link_loop fuel bib_chapter bib_ids content 0 span_end [])"

text \<open>The pattern \<^verbatim>\<open>id="(ref-[^"]+)"\<close> at the head of the text, and the search for
  the bibliography fragment: the first fragment with more than five such identifiers.\<close>

definition ref_id :: "string \<Rightarrow> (nat \<times> string) option" where
  "ref_id s =
     (case lit (''id='' @ [dq] @ ''ref-'') s of
        None \<Rightarrow> None
      | Some r \<Rightarrow>
          (let key = takeWhile (\<lambda>c. c \<noteq> dq) r
           in if key = [] \<or> length key = length r then None
              else Some (length s - length r + length key + 1, ''ref-'' @ key)))"

fun find_bibliography :: "(string \<times> string) list \<Rightarrow> (string \<times> string list) option" where
  "find_bibliography [] = None"
| "find_bibliography ((name, content) # files) =
     (if 5 < length (re_finditer ref_id 0 content)
      then Some (name, re_finditer ref_id 0 content)
      else find_bibliography files)"

text \<open>The loop over the fragments; \<^verbatim>\<open>span_end\<close> keeps its value from one fragment to
  the next.\<close>

fun link_fragments ::
  "nat \<Rightarrow> string \<Rightarrow> string set \<Rightarrow> (string \<times> string) list \<Rightarrow> nat option
     \<Rightarrow> (py_error + (string \<times> string) list) option" where
  "link_fragments fuel bib_chapter bib_ids [] span_end = Some (Inr [])"
| "link_fragments fuel bib_chapter bib_ids ((name, content) # files) span_end =
     (case link_fragment fuel bib_chapter bib_ids content span_end of
        None \<Rightarrow> None
      | Some (Inl e) \<Rightarrow> Some (Inl e)
      | Some (Inr (content', span_end')) \<Rightarrow>
          (case link_fragments fuel bib_chapter bib_ids files span_end' of
             None \<Rightarrow> None
           | Some (Inl e) \<Rightarrow> Some (Inl e)
           | Some (Inr files') \<Rightarrow> Some (Inr ((name, content') # files'))))"

text \<open>\<^verbatim>\<open>_link_citations\<close> on the sorted list of the fragments \<^verbatim>\<open>text/*.xhtml\<close>, each
  with its name and its text.\<close>

definition link_citations ::
  "nat \<Rightarrow> (string \<times> string) list \<Rightarrow> (py_error + (string \<times> string) list) option" where
  "link_citations fuel xhtml_files =
     (case find_bibliography xhtml_files of
        None \<Rightarrow> Some (Inr xhtml_files)
      | Some (bib_chapter, ids) \<Rightarrow>
          if bib_chapter = [] then Some (Inr xhtml_files)
          else link_fragments fuel bib_chapter (set ids) xhtml_files None)"

section \<open>Example inputs\<close>

text \<open>A file system in which nothing exists.\<close>

definition fs_empty :: "string file_system" where
  "fs_empty =
     \<lparr> path_exists = (\<lambda>p. Inr False),
       read_text = (\<lambda>p. Inl OSError),
       join_path = (\<lambda>d n. d @ ''/'' @ n),
       parent = (\<lambda>p. p),
       glob_bib = (\<lambda>p. Inr []),
       path_name = (\<lambda>p. p) \<rparr>"

text \<open>A file system whose existence test raises, as for a name that is too long.\<close>

definition fs_raising :: "string file_system" where
  "fs_raising = fs_empty \<lparr> path_exists := (\<lambda>p. Inl OSError) \<rparr>"


text \<open>A file system in which \<^verbatim>\<open>paper/a.tex\<close> includes itself.\<close>

definition fs_circular :: "string file_system" where
  "fs_circular =
     \<lparr> path_exists = (\<lambda>p. Inr (p = ''paper/a.tex'')),
       read_text = (\<lambda>p. Inr (''x'' @ bs # ''input{a}y'')),
       join_path = (\<lambda>d n. d @ ''/'' @ n),
       parent = (\<lambda>p. ''paper''),
       glob_bib = (\<lambda>p. Inr []),
       path_name = (\<lambda>p. p) \<rparr>"


text \<open>Two extracted archives; the second has a file named \<^verbatim>\<open>mimetype\<close> in a
  subdirectory.\<close>

definition epub_tree :: "dir_entry list" where
  "epub_tree =
     [([''mimetype''], RegularFile), ([''META-INF''], Directory),
      ([''META-INF'', ''container.xml''], RegularFile), ([''EPUB''], Directory),
      ([''EPUB'', ''content.opf''], RegularFile)]"

definition epub_tree_nested :: "dir_entry list" where
  "epub_tree_nested =
     [([''mimetype''], RegularFile), ([''EPUB''], Directory),
      ([''EPUB'', ''mimetype''], RegularFile)]"


text \<open>A document with one pair of markers, and two metadata records.\<close>

definition paper_text :: string where
  "paper_text = bs # ''documentclass{icml}'' @ begin_document @ ''Hello'' @ end_document @ ''tail''"

definition paper_meta :: PaperMetadata where
  "paper_meta = \<lparr>title = ''T'', authors = [''A'', ''B''], abstract = [], date = []\<rparr>"

definition no_meta :: PaperMetadata where
  "no_meta = \<lparr>title = [], authors = [], abstract = [], date = []\<rparr>"


text \<open>Content fragments: a citation span with two keys and a nested span, a span with
  an empty list of keys, a span that is not closed, and a closed span followed by one
  that is not.\<close>

definition nested_citation :: string where
  "nested_citation =
     ''See '' @ citation_marker @ ''a b'' @ [dq] @ ''>(<span class='' @ [dq] @ ''sc'' @ [dq]
       @ ''>A</span>; B)</span>.''"

definition empty_citation :: string where
  "empty_citation = citation_marker @ [dq] @ ''>x</span>''"

definition open_citation :: string where
  "open_citation = citation_marker @ ''a'' @ [dq] @ ''>x''"

definition closed_then_open :: string where
  "closed_then_open =
     citation_marker @ ''a'' @ [dq] @ ''>x</span>'' @ citation_marker @ ''b'' @ [dq] @ ''>y''"

text \<open>Two documents with a macro whose replacement text has a backslash.\<close>

definition macro_mathbb :: string where
  "macro_mathbb = bs # ''newcommand{'' @ bs # ''R}{'' @ bs # ''mathbb{R}}'' @ [nl] @ ''$x'' @ bs # ''in'' @ bs # ''R$''"

definition macro_nu :: string where
  "macro_nu = bs # ''newcommand{'' @ bs # ''v}{'' @ bs # ''nu}'' @ [nl] @ ''$'' @ bs # ''v$''"

text \<open>A document with a style directive in front of a paragraph break.\<close>

definition styled_text :: string where
  "styled_text =
     ''A'' @ bs # ''bibliographystyle{plain}'' @ [nl, nl] @ ''B'' @ bs # ''bibliography{refs}''"
section \<open>Facts about the text primitives\<close>

lemma re_sub_scan_skip: "re_sub_scan mt k s = re_sub_scan mt 0 (drop k s)"
proof (induction s arbitrary: k)
  case Nil
  show ?case by simp
next
  case (Cons c cs)
  show ?case
  proof (cases k)
    case 0
    then show ?thesis by simp
  next
    case (Suc j)
    then show ?thesis using Cons.IH [of j] by simp
  qed
qed

lemma re_sub_scan_no_match:
  assumes "\<And>t. suffix t s \<Longrightarrow> mt t = None"
  shows "re_sub_scan mt 0 s = s"
  using assms
proof (induction s)
  case Nil
  show ?case by simp
next
  case (Cons c cs)
  have "mt (c # cs) = None" by (rule Cons.prems) simp
  moreover have "re_sub_scan mt 0 cs = cs"
    by (rule Cons.IH) (simp add: Cons.prems suffix_Cons)
  ultimately show ?case by simp
qed

lemma not_sublist_suffix_prefix:
  assumes "\<not> sublist p s" and "suffix t s"
  shows "\<not> prefix p t"
  using assms by (auto simp: sublist_altdef')

lemma re_sub_scan_deletes:
  assumes "\<And>t n r. mt t = Some (n, r) \<Longrightarrow> r = []"
  shows "subseq (re_sub_scan mt k s) s"
proof (induction s arbitrary: k)
  case Nil
  show ?case by simp
next
  case (Cons c cs)
  show ?case
  proof (cases "0 < k")
    case True
    then show ?thesis using Cons.IH [of "k - 1"] by (auto intro: list_emb_Cons)
  next
    case False
    show ?thesis
    proof (cases "mt (c # cs)")
      case None
      then show ?thesis using False Cons.IH [of 0] by simp
    next
      case (Some a)
      obtain n r where a: "a = (n, r)" by (cases a)
      with Some assms have "r = []" by blast
      then show ?thesis using False Some a Cons.IH [of "n - 1"] by (auto intro: list_emb_Cons)
    qed
  qed
qed

lemma str_replace_absent:
  assumes "\<not> sublist old s"
  shows "str_replace old new s = s"
proof -
  have "re_sub_scan (literal old new) 0 s = s"
  proof (rule re_sub_scan_no_match)
    fix t assume "suffix t s"
    with assms have "\<not> prefix old t" by (rule not_sublist_suffix_prefix)
    then show "literal old new t = None" by (simp add: literal_def)
  qed
  then show ?thesis by (simp add: str_replace_def re_sub_def)
qed

lemma str_replace_present:
  assumes "sublist old s" and "old \<noteq> []"
  shows "sublist new (str_replace old new s)"
proof -
  have "sublist new (re_sub_scan (literal old new) 0 s)" using assms
  proof (induction s)
    case Nil
    then show ?case by simp
  next
    case (Cons c cs)
    show ?case
    proof (cases "prefix old (c # cs)")
      case True
      then have "literal old new (c # cs) = Some (length old, new)"
        by (simp add: literal_def)
      then show ?thesis by simp
    next
      case False
      with Cons.prems have "sublist old cs" by (simp add: sublist_Cons_right)
      from Cons.IH [OF this Cons.prems(2)] have "sublist new (re_sub_scan (literal old new) 0 cs)" .
      moreover from False have "literal old new (c # cs) = None" by (simp add: literal_def)
      ultimately show ?thesis by (simp add: sublist_Cons_right)
    qed
  qed
  then show ?thesis by (simp add: str_replace_def re_sub_def)
qed

lemma sublist_mid: "sublist m b \<Longrightarrow> sublist m (a @ b)"
  by (auto simp: sublist_def) (metis append.assoc)
lemma sublist_left: "sublist m a \<Longrightarrow> sublist m (a @ b)"
  by (simp add: sublist_append)

lemma prefix_no_straddle:
  assumes "prefix p (a @ b)" and "a \<noteq> []" and "b = [] \<or> hd b \<notin> set (tl p)"
  shows "prefix p a"
proof -
  from assms(1) consider "prefix p a" | us where "p = a @ us" and "prefix us b"
    by (auto simp: prefix_append)
  then show ?thesis
  proof cases
    case 1
    then show ?thesis .
  next
    case 2
    show ?thesis
    proof (cases us)
      case Nil
      with 2 show ?thesis by simp
    next
      case (Cons u us')
      with 2 have "b \<noteq> []" and "hd b = u" by (auto simp: prefix_def)
      moreover from 2 Cons assms(2) have "u \<in> set (tl p)" by (cases a) auto
      ultimately show ?thesis using assms(3) by simp
    qed
  qed
qed

lemma re_search_skip:
  assumes "\<And>t. suffix t pre \<Longrightarrow> t \<noteq> [] \<Longrightarrow> mt (t @ rest) = None"
  shows "re_search mt (pre @ rest) = re_search mt rest"
  using assms
proof (induction pre)
  case Nil
  show ?case by simp
next
  case (Cons c cs)
  have "mt ((c # cs) @ rest) = None" by (rule Cons.prems) simp_all
  moreover have "re_search mt (cs @ rest) = re_search mt rest"
    by (rule Cons.IH) (simp add: Cons.prems suffix_Cons)
  ultimately show ?case by simp
qed

lemma re_search_head: "mt (c # cs) = Some g \<Longrightarrow> re_search mt (c # cs) = Some g"
  by simp

lemma re_sub_scan_match:
  assumes "mt (c # cs) = Some (n, r)" and "0 < n"
  shows "re_sub_scan mt 0 (c # cs) = r @ re_sub_scan mt 0 (drop n (c # cs))"
proof -
  from assms(2) obtain m where n: "n = Suc m" by (cases n) auto
  have "re_sub_scan mt 0 (c # cs) = r @ re_sub_scan mt m cs" using assms(1) n by simp
  also have "re_sub_scan mt m cs = re_sub_scan mt 0 (drop m cs)" by (rule re_sub_scan_skip)
  finally show ?thesis using n by simp
qed

lemma lit_Some_iff: "lit p s = Some r \<longleftrightarrow> s = p @ r"
  by (auto simp: lit_def prefix_def)

lemma lit_None_iff: "lit p s = None \<longleftrightarrow> \<not> prefix p s"
  by (simp add: lit_def)

lemma arg_to_brace_Some_iff:
  "arg_to_brace r = Some (a, rest) \<longleftrightarrow> r = a @ CHR ''}'' # rest \<and> CHR ''}'' \<notin> set a"
proof
  assume "arg_to_brace r = Some (a, rest)"
  then have a: "a = takeWhile (\<lambda>c. c \<noteq> CHR ''}'') r"
    and d: "\<exists>x. dropWhile (\<lambda>c. c \<noteq> CHR ''}'') r = x # rest"
    by (auto simp: arg_to_brace_def split: list.splits)
  from d obtain x where x: "dropWhile (\<lambda>c. c \<noteq> CHR ''}'') r = x # rest" ..
  then have "x = CHR ''}''" using hd_dropWhile [of "\<lambda>c. c \<noteq> CHR ''}''" r] by auto
  with x a have "r = a @ CHR ''}'' # rest"
    using takeWhile_dropWhile_id [of "\<lambda>c. c \<noteq> CHR ''}''" r] by simp
  moreover have "CHR ''}'' \<notin> set a" unfolding a by (auto dest: set_takeWhileD)
  ultimately show "r = a @ CHR ''}'' # rest \<and> CHR ''}'' \<notin> set a" ..
next
  assume *: "r = a @ CHR ''}'' # rest \<and> CHR ''}'' \<notin> set a"
  then have "\<And>x. x \<in> set a \<Longrightarrow> x \<noteq> CHR ''}''" by auto
  then have "takeWhile (\<lambda>c. c \<noteq> CHR ''}'') (a @ CHR ''}'' # rest) = a"
    and "dropWhile (\<lambda>c. c \<noteq> CHR ''}'') (a @ CHR ''}'' # rest) = CHR ''}'' # rest"
    by (simp_all add: takeWhile_append2 dropWhile_append2)
  with * show "arg_to_brace r = Some (a, rest)"
    by (simp add: arg_to_brace_def)
qed

lemma arg_to_brace_None_iff: "arg_to_brace r = None \<longleftrightarrow> CHR ''}'' \<notin> set r"
proof -
  have "arg_to_brace r = None \<longleftrightarrow> dropWhile (\<lambda>c. c \<noteq> CHR ''}'') r = []"
    by (cases "dropWhile (\<lambda>c. c \<noteq> CHR ''}'') r") (simp_all add: arg_to_brace_def del: dropWhile_eq_Nil_conv)
  also have "\<dots> \<longleftrightarrow> (\<forall>x\<in>set r. x \<noteq> CHR ''}'')"
    by (rule dropWhile_eq_Nil_conv)
  also have "\<dots> \<longleftrightarrow> CHR ''}'' \<notin> set r" by blast
  finally show ?thesis .
qed

lemma takeWhile_dropWhile_Nil: "takeWhile P (dropWhile P xs) = []"
  by (induction xs) auto

lemma list_all_takeWhile: "list_all P (takeWhile P xs)"
  by (induction xs) auto


lemma dropWhile_fixed: "takeWhile P r = [] \<Longrightarrow> dropWhile P r = r"
  using takeWhile_dropWhile_id [of P r] by simp

lemma list_all_dropWhile_append: "list_all P ws \<Longrightarrow> dropWhile P (ws @ r) = dropWhile P r"
  by (induction ws) auto

section \<open>The manifest patch is idempotent\<close>

lemma font_item_names_font: "sublist font_name (font_item font_name)"
  unfolding font_item_def Let_def
  by (intro sublist_mid sublist_append_rightI)
lemma font_items_marker: "sublist ''lmroman10-regular.otf'' font_items"
proof -
  have "font_items = font_item ''lmroman10-regular.otf'' @ concat (map font_item (tl FONT_FILES))"
    by (simp add: font_items_def FONT_FILES_def)
  moreover have "sublist ''lmroman10-regular.otf'' (font_item ''lmroman10-regular.otf'' @ concat (map font_item (tl FONT_FILES)))"
    by (rule sublist_left) (rule font_item_names_font)
  ultimately show ?thesis by (simp only:)
qed
lemma patch_manifest_marked_or_same:
  "patch_manifest content = content \<or> sublist ''lmroman10-regular.otf'' (patch_manifest content)"
proof (cases "sublist ''lmroman10-regular.otf'' content")
  case True
  then show ?thesis by (simp add: patch_manifest_def)
next
  case unmarked: False
  show ?thesis
  proof (cases "sublist ''</manifest>'' content")
    case True
    have "sublist (font_items @ ''  </manifest>'')
            (str_replace ''</manifest>'' (font_items @ ''  </manifest>'') content)"
      by (rule str_replace_present [OF True]) simp
    moreover have "sublist ''lmroman10-regular.otf'' (font_items @ ''  </manifest>'')"
      by (rule sublist_left) (rule font_items_marker)
    ultimately have "sublist ''lmroman10-regular.otf''
        (str_replace ''</manifest>'' (font_items @ ''  </manifest>'') content)"
      by (rule sublist_order.order.trans [rotated])
    then have "sublist ''lmroman10-regular.otf'' (patch_manifest content)"
      using unmarked by (simp only: patch_manifest_def if_False)
    then show ?thesis ..
  next
    case False
    then show ?thesis using unmarked by (simp add: patch_manifest_def str_replace_absent)
  qed
qed
text \<open>
  Claim C6. The manifest patch is idempotent: for every manifest text, patching the
  patched text gives the patched text again, and the same holds for the operation on
  the package descriptors of the content root. The first run either leaves the text
  as it is or leaves the marker font name in it, which turns the second run into a
  no-op.
\<close>

theorem patch_manifest_idempotent:
  "patch_manifest (patch_manifest content) = patch_manifest content
   \<and> update_manifest (update_manifest opfs) = update_manifest opfs"
proof
  show idem: "patch_manifest (patch_manifest content) = patch_manifest content" for content
    using patch_manifest_marked_or_same [of content]
  proof
    assume "patch_manifest content = content"
    then show ?thesis by simp
  next
    assume "sublist ''lmroman10-regular.otf'' (patch_manifest content)"
    then show ?thesis by (simp add: patch_manifest_def [of "patch_manifest content"])
  qed
  show "update_manifest (update_manifest opfs) = update_manifest opfs"
    by (cases opfs rule: update_manifest.cases) (simp_all add: idem)
qed

section \<open>The bibliography preparer removes the style directives and the white space after them\<close>

lemma bibliographystyle_directive_None:
  "bibliographystyle_directive s = None
     \<longleftrightarrow> \<not> (prefix (bs # ''bibliographystyle{'') s
            \<and> CHR ''}'' \<in> set (drop (length (bs # ''bibliographystyle{'')) s))"
proof -
  define tok where "tok = bs # ''bibliographystyle{''"
  have h: "bibliographystyle_directive s =
      (case lit tok s of
         None \<Rightarrow> None
       | Some r \<Rightarrow>
           (case arg_to_brace r of
              None \<Rightarrow> None
            | Some (a, rest) \<Rightarrow> Some (length s - length (dropWhile is_space rest), [])))"
    by (simp add: bibliographystyle_directive_def tok_def)
  have "bibliographystyle_directive s = None
          \<longleftrightarrow> \<not> (prefix tok s \<and> CHR ''}'' \<in> set (drop (length tok) s))"
  proof (cases "prefix tok s")
    case False
    then have "lit tok s = None" by (simp add: lit_def)
    with False show ?thesis by (simp add: h)
  next
    case True
    then obtain r where s: "s = tok @ r" by (auto simp: prefix_def)
    then have l: "lit tok s = Some r" and dr: "drop (length tok) s = r" by (simp_all add: lit_def)
    show ?thesis
    proof (cases "CHR ''}'' \<in> set r")
      case False
      then have "arg_to_brace r = None" by (simp add: arg_to_brace_None_iff)
      with l False dr True show ?thesis by (simp add: h)
    next
      case in_r: True
      then have "arg_to_brace r \<noteq> None" by (simp add: arg_to_brace_None_iff)
      then obtain a rest where "arg_to_brace r = Some (a, rest)" by auto
      with l in_r dr True show ?thesis by (simp add: h)
    qed
  qed
  then show ?thesis by (simp only: tok_def)
qed

lemma bibliographystyle_directive_Some:
  assumes "bibliographystyle_directive s = Some (n, repl)"
  shows "\<exists>arg ws r. s = bs # ''bibliographystyle{'' @ arg @ ''}'' @ ws @ r
           \<and> CHR ''}'' \<notin> set arg \<and> list_all is_space ws \<and> takeWhile is_space r = []
           \<and> 0 < n \<and> drop n s = r \<and> repl = []"
proof -
  define tok where "tok = bs # ''bibliographystyle{''"
  have h: "bibliographystyle_directive s =
      (case lit tok s of
         None \<Rightarrow> None
       | Some r \<Rightarrow>
           (case arg_to_brace r of
              None \<Rightarrow> None
            | Some (a, rest) \<Rightarrow> Some (length s - length (dropWhile is_space rest), [])))"
    by (simp add: bibliographystyle_directive_def tok_def)
  from assms h obtain r1 where r1: "lit tok s = Some r1"
    by (cases "lit tok s") simp_all
  with assms h obtain a rest where a: "arg_to_brace r1 = Some (a, rest)"
    by (cases "arg_to_brace r1") auto
  from r1 have s: "s = tok @ r1" by (simp add: lit_Some_iff)
  from a have r: "r1 = a @ CHR ''}'' # rest" and na: "CHR ''}'' \<notin> set a"
    by (simp_all add: arg_to_brace_Some_iff)
  define ws where "ws = takeWhile is_space rest"
  define r where "r = dropWhile is_space rest"
  define pre where "pre = tok @ a @ ''}'' @ ws"
  have rest: "rest = ws @ r" by (simp add: ws_def r_def)
  from assms h r1 a have n: "n = length s - length r" and repl: "repl = []"
    by (simp_all add: r_def)
  have split: "s = pre @ r" using s \<open>r1 = a @ CHR ''}'' # rest\<close> rest by (simp add: pre_def)
  then have "n = length pre" using n by simp
  moreover have "0 < length pre" by (simp add: pre_def)
  ultimately have pos: "0 < n" and dr: "drop n s = r" using split by simp_all
  have "list_all is_space ws" unfolding ws_def by (rule list_all_takeWhile)
  moreover have "takeWhile is_space r = []" unfolding r_def by (rule takeWhile_dropWhile_Nil)
  moreover have "s = tok @ a @ ''}'' @ ws @ r" using split by (simp add: pre_def)
  ultimately have "s = tok @ a @ ''}'' @ ws @ r \<and> CHR ''}'' \<notin> set a \<and> list_all is_space ws
      \<and> takeWhile is_space r = [] \<and> 0 < n \<and> drop n s = r \<and> repl = []"
    using na pos dr repl by blast
  then have "\<exists>arg ws r. s = tok @ arg @ ''}'' @ ws @ r
           \<and> CHR ''}'' \<notin> set arg \<and> list_all is_space ws \<and> takeWhile is_space r = []
           \<and> 0 < n \<and> drop n s = r \<and> repl = []"
    by blast
  then show ?thesis by (simp only: tok_def append_Cons)
qed


lemma bibliographystyle_directive_at:
  assumes "CHR ''}'' \<notin> set arg" and "list_all is_space ws" and "takeWhile is_space r = []"
  shows "bibliographystyle_directive (bs # ''bibliographystyle{'' @ arg @ ''}'' @ ws @ r)
           = Some (length (bs # ''bibliographystyle{'' @ arg @ ''}'' @ ws), [])"
proof -
  define tok where "tok = bs # ''bibliographystyle{''"
  define s where "s = tok @ arg @ ''}'' @ ws @ r"
  have h: "bibliographystyle_directive s =
      (case lit tok s of
         None \<Rightarrow> None
       | Some r \<Rightarrow>
           (case arg_to_brace r of
              None \<Rightarrow> None
            | Some (a, rest) \<Rightarrow> Some (length s - length (dropWhile is_space rest), [])))"
    by (simp add: bibliographystyle_directive_def tok_def)
  have l: "lit tok s = Some (arg @ ''}'' @ ws @ r)" by (simp add: lit_Some_iff s_def)
  have a: "arg_to_brace (arg @ ''}'' @ ws @ r) = Some (arg, ws @ r)"
    using assms(1) by (simp add: arg_to_brace_Some_iff)
  have d: "dropWhile is_space (ws @ r) = r"
    using assms(2,3) by (simp add: list_all_dropWhile_append dropWhile_fixed)
  have "length s - length r = length (tok @ arg @ ''}'' @ ws)" by (simp add: s_def)
  with l a d have "bibliographystyle_directive s = Some (length (tok @ arg @ ''}'' @ ws), [])"
    by (simp add: h)
  then show ?thesis by (simp only: s_def tok_def append_Cons)
qed

lemma bibstyle_removed_scan: "bibstyle_removed s (re_sub_scan bibliographystyle_directive 0 s)"
proof (induction s rule: length_induct)
  case (1 s)
  let ?scan = "re_sub_scan bibliographystyle_directive 0"
  show ?case
  proof (cases s)
    case Nil
    then show ?thesis by (simp add: style_done)
  next
    case (Cons c cs)
    show ?thesis
    proof (cases "bibliographystyle_directive (c # cs)")
      case None
      have keep: "\<not> (prefix (bs # ''bibliographystyle{'') (c # cs)
          \<and> CHR ''}'' \<in> set (drop (length (bs # ''bibliographystyle{'')) (c # cs)))"
        by (rule iffD1 [OF bibliographystyle_directive_None None])
      have "bibstyle_removed cs (?scan cs)" using 1 Cons by simp
      with keep have "bibstyle_removed (c # cs) (c # ?scan cs)" by (rule style_keep)
      moreover have "?scan (c # cs) = c # ?scan cs" using None by simp
      ultimately show ?thesis using Cons by simp
    next
      case (Some m)
      obtain n repl where m: "m = (n, repl)" by (cases m)
      with Some Cons have match: "bibliographystyle_directive s = Some (n, repl)" by simp
      from bibliographystyle_directive_Some [OF this] obtain arg ws r
        where s: "s = bs # ''bibliographystyle{'' @ arg @ ''}'' @ ws @ r"
          and arg: "CHR ''}'' \<notin> set arg" and ws: "list_all is_space ws"
          and r: "takeWhile is_space r = []" and n: "0 < n" and dr: "drop n s = r"
          and repl: "repl = []"
        by blast
      have "?scan s = repl @ ?scan (drop n s)"
        using match n unfolding Cons by (rule re_sub_scan_match)
      then have out: "?scan s = ?scan r" using dr repl by simp
      have "length r < length s" by (subst s) simp
      with 1 have "bibstyle_removed r (?scan r)" by blast
      with arg ws r have "bibstyle_removed (bs # ''bibliographystyle{'' @ arg @ ''}'' @ ws @ r) (?scan r)"
        by (rule style_drop)
      then show ?thesis unfolding out s [symmetric] .
    qed
  qed
qed

lemma bibstyle_removed_unique:
  "bibstyle_removed s t \<Longrightarrow> t = re_sub_scan bibliographystyle_directive 0 s"
proof (induction rule: bibstyle_removed.induct)
  case style_done
  show ?case by simp
next
  case (style_keep c s t)
  have "bibliographystyle_directive (c # s) = None"
    by (rule iffD2 [OF bibliographystyle_directive_None style_keep.hyps(1)])
  with style_keep.IH show ?case by simp
next
  case (style_drop arg ws r t)
  let ?scan = "re_sub_scan bibliographystyle_directive 0"
  define pre where "pre = bs # ''bibliographystyle{'' @ arg @ ''}'' @ ws"
  have s: "bs # ''bibliographystyle{'' @ arg @ ''}'' @ ws @ r = pre @ r" by (simp add: pre_def)
  have pos: "0 < length pre" by (simp add: pre_def)
  then obtain c cs where cs: "pre @ r = c # cs" by (cases pre) auto
  have "bibliographystyle_directive (pre @ r) = Some (length pre, [])"
    using bibliographystyle_directive_at [OF style_drop.hyps(1-3)] unfolding s pre_def .
  then have m: "bibliographystyle_directive (c # cs) = Some (length pre, [])" by (simp only: cs)
  have "?scan (c # cs) = [] @ ?scan (drop (length pre) (c # cs))"
    using m pos by (rule re_sub_scan_match [where mt = bibliographystyle_directive])
  then have "?scan (pre @ r) = ?scan r" by (simp add: cs [symmetric])
  with style_drop.IH show ?case unfolding s by simp
qed

lemma prepare_bibliography_Inr:
  "prepare_bibliography fs work_dir content = Inr t
     \<Longrightarrow> t = re_sub_scan bibliographystyle_directive 0 content"
  by (auto simp: prepare_bibliography_def re_sub_def split: sum.splits)

lemma bib_lookup_returns:
  assumes ex: "\<And>p. \<exists>b. path_exists fs p = Inr b" and gl: "\<And>d. \<exists>l. glob_bib fs d = Inr l"
  shows "\<exists>r. bib_lookup fs work_dir content = Inr r"
proof (cases "re_search (braced_directive ''bibliography'') content")
  case None
  then show ?thesis by (simp add: bib_lookup_def)
next
  case (Some m)
  obtain n g where m: "m = (n, g)" by (cases m)
  obtain b where b: "path_exists fs (join_path fs work_dir g) = Inr b" using ex by blast
  obtain b' where b': "path_exists fs (join_path fs work_dir (g @ ''.bib'')) = Inr b'"
    using ex by blast
  obtain l where l: "glob_bib fs work_dir = Inr l" using gl by blast
  show ?thesis
    using Some m b b' l
    by (cases b; cases b'; cases l) (simp_all add: bib_lookup_def Let_def)
qed

lemma styled_text_value:
  "prepare_bibliography fs_empty ''paper'' styled_text = Inr (''AB'' @ bs # ''bibliography{refs}'')"
  by code_simp

lemma styled_text_value_circular:
  "prepare_bibliography fs_circular ''paper'' styled_text = Inr (''AB'' @ bs # ''bibliography{refs}'')"
  by code_simp

text \<open>
  When the existence check of the declared bibliography file raises (the operating
  system refuses a file name of more than 255 bytes with an error that
  \<^verbatim>\<open>Path.exists\<close> does not catch), the stage raises and returns no text.
\<close>

lemma prepare_bibliography_raises:
  "prepare_bibliography fs_raising ''paper'' styled_text = Inl OSError"
  by code_simp

text \<open>
  Without a bibliography directive the file system is never consulted, so the stage
  returns also on a file system whose every call raises.
\<close>

lemma prepare_bibliography_no_lookup:
  "prepare_bibliography fs_raising ''paper'' (''A'' @ bs # ''bibliographystyle{plain}'' @ [nl, nl] @ ''B'')
     = Inr ''AB''"
  by code_simp

text \<open>
  Claim C10, the stated property fails. The claim says that the output differs from
  the input only by the removal of bibliography-style directives. The pattern of the
  substitution ends in \<^verbatim>\<open>\s*\n?\<close>, so all white space after a directive goes with
  it: in the text below the blank line that separates the paragraphs \<^verbatim>\<open>A\<close> and \<^verbatim>\<open>B\<close>
  is deleted too, and the two paragraphs are joined.
\<close>

theorem prepare_bibliography_joins_paragraphs:
  "prepare_bibliography fs_empty ''paper''
     (''A'' @ bs # ''bibliographystyle{plain}'' @ [nl, nl] @ ''B'' @ bs # ''bibliography{refs}'')
     = Inr (''AB'' @ bs # ''bibliography{refs}'')
   \<and> ''AB'' @ bs # ''bibliography{refs}'' \<noteq> ''A'' @ [nl, nl] @ ''B'' @ bs # ''bibliography{refs}''"
  by code_simp

text \<open>
  Claim C10, as amended. Whenever the bibliography preparer returns a text, that text
  is the input in which a left-to-right scan has removed each bibliography-style
  directive (the token \<^verbatim>\<open>\bibliographystyle{\<close>, an argument without a closing brace,
  and the closing brace) together with all the white space that follows it, and has
  kept every other character; the relation \<^const>\<open>bibstyle_removed\<close> states this and
  determines the text. The returned text is the same for every file system and every
  working directory: the lookup of the bibliography file never changes it. The stage
  returns a text whenever the existence check and the directory listing of the file
  system return.
\<close>

theorem prepare_bibliography_frame:
  "(prepare_bibliography fs work_dir content = Inr t \<longrightarrow> bibstyle_removed content t)
   \<and> (prepare_bibliography fs work_dir content = Inr t
        \<and> prepare_bibliography fs' work_dir' content = Inr t' \<longrightarrow> t = t')
   \<and> ((\<forall>p. \<exists>b. path_exists fs p = Inr b) \<and> (\<forall>d. \<exists>l. glob_bib fs d = Inr l)
        \<longrightarrow> (\<exists>t. prepare_bibliography fs work_dir content = Inr t))
   \<and> (bibstyle_removed content t \<and> bibstyle_removed content t' \<longrightarrow> t = t')"
proof (intro conjI impI)
  assume "prepare_bibliography fs work_dir content = Inr t"
  then have "t = re_sub_scan bibliographystyle_directive 0 content"
    by (rule prepare_bibliography_Inr)
  then show "bibstyle_removed content t" by (simp add: bibstyle_removed_scan)
next
  assume "prepare_bibliography fs work_dir content = Inr t
    \<and> prepare_bibliography fs' work_dir' content = Inr t'"
  then have "t = re_sub_scan bibliographystyle_directive 0 content"
    and "t' = re_sub_scan bibliographystyle_directive 0 content"
    by (blast dest: prepare_bibliography_Inr)+
  then show "t = t'" by simp
next
  assume "(\<forall>p. \<exists>b. path_exists fs p = Inr b) \<and> (\<forall>d. \<exists>l. glob_bib fs d = Inr l)"
  then have "\<exists>r. bib_lookup fs work_dir content = Inr r"
    by (intro bib_lookup_returns) blast+
  then show "\<exists>t. prepare_bibliography fs work_dir content = Inr t"
    by (auto simp: prepare_bibliography_def)
next
  assume "bibstyle_removed content t \<and> bibstyle_removed content t'"
  then have "t = re_sub_scan bibliographystyle_directive 0 content"
    and "t' = re_sub_scan bibliographystyle_directive 0 content"
    by (blast dest: bibstyle_removed_unique)+
  then show "t = t'" by simp
qed

theorem prepare_bibliography_frame_witness:
  "prepare_bibliography fs_empty ''paper'' styled_text = Inr (''AB'' @ bs # ''bibliography{refs}'')
   \<and> prepare_bibliography fs_circular ''paper'' styled_text = Inr (''AB'' @ bs # ''bibliography{refs}'')
   \<and> (\<forall>p. \<exists>b. path_exists fs_empty p = Inr b)
   \<and> (\<forall>d. \<exists>l. glob_bib fs_empty d = Inr l)
   \<and> (\<exists>t. prepare_bibliography fs_empty ''paper'' styled_text = Inr t)
   \<and> bibstyle_removed styled_text (''AB'' @ bs # ''bibliography{refs}'')"
proof -
  define out where "out = ''AB'' @ bs # ''bibliography{refs}''"
  note inst = prepare_bibliography_frame
    [of fs_empty "''paper''" styled_text out fs_circular "''paper''" out]
  have v: "prepare_bibliography fs_empty ''paper'' styled_text = Inr out"
    unfolding out_def by (rule styled_text_value)
  have v': "prepare_bibliography fs_circular ''paper'' styled_text = Inr out"
    unfolding out_def by (rule styled_text_value_circular)
  have ex: "\<forall>p. \<exists>b. path_exists fs_empty p = Inr b" by (auto simp: fs_empty_def)
  have gl: "\<forall>d. \<exists>l. glob_bib fs_empty d = Inr l" by (simp add: fs_empty_def)
  from inst have "prepare_bibliography fs_empty ''paper'' styled_text = Inr out
      \<longrightarrow> bibstyle_removed styled_text out"
    by (rule conjunct1)
  with v have rel: "bibstyle_removed styled_text out" by (rule rev_mp)
  from inst ex gl have ret: "\<exists>t. prepare_bibliography fs_empty ''paper'' styled_text = Inr t"
    by blast
  from v v' ex gl ret rel show ?thesis unfolding out_def by (intro conjI)
qed

section \<open>Title extraction takes the first pattern that matches\<close>

lemma clean_tex_Foo: "clean_tex ''Foo'' = ''Foo''"
  by (simp add: clean_tex_def re_sub_def command_with_arg_def any_command_with_arg_def
      a_brace_def white_space_run_def is_space_def strip_def lit_def)

lemma icmltitle_Foo_found:
  assumes "\<not> sublist (bs # ''icmltitle{'') pre"
  shows "re_search (title_macro (bs # ''icmltitle'')) (pre @ bs # ''icmltitle{Foo}'' @ post) = Some ''Foo''"
proof -
  let ?mt = "title_macro (bs # ''icmltitle'')"
  let ?rest = "bs # ''icmltitle{Foo}'' @ post"
  have "re_search ?mt (pre @ ?rest) = re_search ?mt ?rest"
  proof (rule re_search_skip)
    fix t assume t: "suffix t pre" "t \<noteq> []"
    have "\<not> prefix (bs # ''icmltitle{'') (t @ ?rest)"
    proof
      assume "prefix (bs # ''icmltitle{'') (t @ ?rest)"
      then have "prefix (bs # ''icmltitle{'') t"
        by (rule prefix_no_straddle) (use t in simp_all)
      with assms t(1) show False by (simp add: not_sublist_suffix_prefix)
    qed
    then show "?mt (t @ ?rest) = None" by (simp add: title_macro_def lit_def)
  qed
  also have "\<dots> = Some ''Foo''"
    by (simp add: title_macro_def lit_def lazy_group_def)
  finally show ?thesis .
qed

text \<open>
  Claim C9. Title extraction is first-match-wins over the ordered pattern list, the
  conference patterns before the generic one: when the ICML title macro matches, the
  title is the cleaned argument of that macro, whatever else the document holds; when
  it does not and the NeurIPS title pattern matches, the title comes from the NeurIPS
  pattern, even if the generic title macro matches too. In particular a document
  whose first ICML title macro is \<^verbatim>\<open>\icmltitle{Foo}\<close> has the title \<^verbatim>\<open>Foo\<close>.
\<close>

theorem title_first_match_wins:
  "(re_search (title_macro (bs # ''icmltitle'')) content = Some g
      \<longrightarrow> extract_title content = clean_tex g)
   \<and> (re_search (title_macro (bs # ''icmltitle'')) content' = None
        \<and> re_search neurips_title content' = Some g'
      \<longrightarrow> extract_title content' = clean_tex g')
   \<and> (\<not> sublist (bs # ''icmltitle{'') pre
      \<longrightarrow> extract_title (pre @ bs # ''icmltitle{Foo}'' @ post) = ''Foo'')"
proof (intro conjI impI)
  assume "re_search (title_macro (bs # ''icmltitle'')) content = Some g"
  then show "extract_title content = clean_tex g"
    by (simp add: extract_title_def title_patterns_def)
next
  assume "re_search (title_macro (bs # ''icmltitle'')) content' = None
            \<and> re_search neurips_title content' = Some g'"
  then show "extract_title content' = clean_tex g'"
    by (simp add: extract_title_def title_patterns_def)
next
  assume "\<not> sublist (bs # ''icmltitle{'') pre"
  then have "re_search (title_macro (bs # ''icmltitle'')) (pre @ bs # ''icmltitle{Foo}'' @ post)
               = Some ''Foo''"
    by (rule icmltitle_Foo_found)
  then show "extract_title (pre @ bs # ''icmltitle{Foo}'' @ post) = ''Foo''"
    by (simp add: extract_title_def title_patterns_def clean_tex_Foo)
qed

theorem title_first_match_wins_witness:
  "re_search (title_macro (bs # ''icmltitle'')) (bs # ''icmltitle{Foo}'' @ bs # ''title{Bar}'')
     = Some ''Foo''
   \<and> extract_title (bs # ''icmltitle{Foo}'' @ bs # ''title{Bar}'') = clean_tex ''Foo''
   \<and> re_search (title_macro (bs # ''icmltitle'')) (bs # ''neuripstitle{Baz}'' @ bs # ''title{Bar}'')
       = None
   \<and> re_search neurips_title (bs # ''neuripstitle{Baz}'' @ bs # ''title{Bar}'') = Some ''Baz''
   \<and> extract_title (bs # ''neuripstitle{Baz}'' @ bs # ''title{Bar}'') = clean_tex ''Baz''
   \<and> \<not> sublist (bs # ''icmltitle{'') ''% draft''
   \<and> extract_title (''% draft'' @ bs # ''icmltitle{Foo}'' @ ''text'') = ''Foo''"
proof -
  let ?a = "bs # ''icmltitle{Foo}'' @ bs # ''title{Bar}''"
  let ?b = "bs # ''neuripstitle{Baz}'' @ bs # ''title{Bar}''"
  have a: "re_search (title_macro (bs # ''icmltitle'')) ?a = Some ''Foo''"
    by (simp add: title_macro_def lit_def lazy_group_def)
  have b1: "re_search (title_macro (bs # ''icmltitle'')) ?b = None"
    by (simp add: title_macro_def lit_def lazy_group_def)
  have b2: "re_search neurips_title ?b = Some ''Baz''"
    by (simp add: neurips_title_def title_macro_def lit_def lazy_group_def)
  have c: "\<not> sublist (bs # ''icmltitle{'') ''% draft''"
    by (simp add: sublist_code)
  note inst = title_first_match_wins [of ?a "''Foo''" ?b "''Baz''" "''% draft''" "''text''"]
  from inst a have "extract_title ?a = clean_tex ''Foo''" by blast
  moreover from inst b1 b2 have "extract_title ?b = clean_tex ''Baz''" by blast
  moreover from inst c have "extract_title (''% draft'' @ bs # ''icmltitle{Foo}'' @ ''text'') = ''Foo''"
    by blast
  ultimately show ?thesis using a b1 b2 c by blast
qed

section \<open>Include resolution terminates\<close>

lemma re_sub_call_returns:
  assumes "\<And>whole g. repl whole g \<noteq> None"
  shows "re_sub_call mt repl k s \<noteq> None"
proof (induction s arbitrary: k)
  case Nil
  show ?case by simp
next
  case (Cons c cs)
  show ?case
  proof (cases "0 < k")
    case True
    then show ?thesis using Cons.IH [of "k - 1"] by simp
  next
    case False
    show ?thesis
    proof (cases "mt (c # cs)")
      case None
      then show ?thesis using False Cons.IH [of 0]
        by (auto split: option.splits sum.splits)
    next
      case (Some a)
      obtain n g where a: "a = (n, g)" by (cases a)
      show ?thesis using False Some a Cons.IH [of "n - 1"] assms [of "take n (c # cs)" g]
        by (auto split: option.splits sum.splits)
    qed
  qed
qed

lemma resolve_includes_returns:
  "11 - depth < fuel \<Longrightarrow> resolve_includes fuel fs content work_dir depth \<noteq> None"
proof (induction fuel arbitrary: content work_dir depth)
  case 0
  then show ?case by simp
next
  case (Suc fuel)
  show ?case
  proof (cases "10 < depth")
    case True
    then show ?thesis by simp
  next
    case False
    with Suc.prems have enough: "11 - (depth + 1) < fuel" by arith
    have repl: "replace_input (resolve_includes fuel fs) fs work_dir depth whole g \<noteq> None"
      for whole g
      using Suc.IH [OF enough]
      by (simp add: replace_input_def Let_def split: sum.splits bool.splits)
    have first: "re_sub_call (braced_directive ''input'')
                   (replace_input (resolve_includes fuel fs) fs work_dir depth) 0 content \<noteq> None"
      by (rule re_sub_call_returns) (rule repl)
    have second: "re_sub_call (braced_directive ''include'')
                   (replace_input (resolve_includes fuel fs) fs work_dir depth) 0 content1 \<noteq> None"
      for content1
      by (rule re_sub_call_returns) (rule repl)
    from first second False show ?thesis
      by (auto split: option.splits sum.splits)
  qed
qed

text \<open>
  Claim C8. Include resolution terminates for every document text, directory and file
  system, circular include chains included: twelve nested calls are enough at depth
  zero, and in general more than \<open>11 - depth\<close> of them, so the model never runs out
  of calls and the resolver returns a text or the exception of a failed existence check
  or read. At a depth above ten the text is returned as it is.
\<close>

theorem resolve_includes_terminates:
  "(11 - depth < fuel \<longrightarrow> (\<exists>r. resolve_includes fuel fs content work_dir depth = Some r))
   \<and> (10 < depth \<and> 0 < fuel
        \<longrightarrow> resolve_includes fuel fs content work_dir depth = Some (Inr content))"
proof (intro conjI impI)
  assume "11 - depth < fuel"
  then have "resolve_includes fuel fs content work_dir depth \<noteq> None"
    by (rule resolve_includes_returns)
  then show "\<exists>r. resolve_includes fuel fs content work_dir depth = Some r" by blast
next
  assume "10 < depth \<and> 0 < fuel"
  then show "resolve_includes fuel fs content work_dir depth = Some (Inr content)"
    by (cases fuel) simp_all
qed

theorem resolve_includes_terminates_witness:
  "11 - 0 < (12::nat)
   \<and> (\<exists>r. resolve_includes 12 fs_circular (bs # ''input{a}'') ''paper'' 0 = Some r)
   \<and> (10 < (11::nat) \<and> 0 < (1::nat))
   \<and> resolve_includes 1 fs_circular (bs # ''input{a}'') ''paper'' 11 = Some (Inr (bs # ''input{a}''))"
proof -
  have h1: "11 - 0 < (12::nat)" and h2: "10 < (11::nat) \<and> 0 < (1::nat)" by simp_all
  from resolve_includes_terminates [of 0 12 fs_circular "bs # ''input{a}''" "''paper''"] h1
  have "\<exists>r. resolve_includes 12 fs_circular (bs # ''input{a}'') ''paper'' 0 = Some r" by blast
  moreover from resolve_includes_terminates [of 11 1 fs_circular "bs # ''input{a}''" "''paper''"] h2
  have "resolve_includes 1 fs_circular (bs # ''input{a}'') ''paper'' 11 = Some (Inr (bs # ''input{a}''))"
    by blast
  ultimately show ?thesis using h1 h2 by blast
qed

text \<open>The circular chain unfolds eleven times and then keeps the directive.\<close>

lemma circular_include_value:
  "resolve_includes 12 fs_circular (bs # ''input{a}'') ''paper'' 0
     = Some (Inr (''xxxxxxxxxxx'' @ bs # ''input{a}yyyyyyyyyyy''))"
  by code_simp

section \<open>Repackaging writes the mimetype entry first\<close>

lemma find_first_of_path:
  assumes "(p, k) \<in> set entries" and "distinct (map fst entries)"
  shows "find (\<lambda>e. fst e = p) entries = Some (p, k)"
  using assms
proof (induction entries)
  case Nil
  then show ?case by simp
next
  case (Cons e es)
  show ?case
  proof (cases "fst e = p")
    case True
    with Cons.prems have "e = (p, k)"
      by (cases e) (auto simp: image_iff)
    with True show ?thesis by simp
  next
    case False
    with Cons.prems have "(p, k) \<in> set es" and "distinct (map fst es)" by auto
    with Cons.IH False show ?thesis by simp
  qed
qed

lemma other_files_sorted: "sorted (other_files entries)"
  unfolding other_files_def by (rule sorted_filter) simp

lemma other_files_distinct:
  assumes "distinct (map fst entries)"
  shows "distinct (other_files entries)"
proof -
  have "mset (map fst (sort_key fst entries)) = mset (map fst entries)" by simp
  with assms have "distinct (map fst (sort_key fst entries))"
    by (metis mset_eq_imp_distinct_iff)
  then show ?thesis unfolding other_files_def by (rule distinct_map_filter)
qed

lemma other_files_set:
  "set (other_files entries)
     = {p. (p, RegularFile) \<in> set entries \<and> name_of p \<noteq> ''mimetype''}"
  unfolding other_files_def by (auto simp: image_iff)

text \<open>
  What repackaging guarantees. For every listing of the extracted directory that names
  each path once and holds a regular file \<^verbatim>\<open>mimetype\<close> at the top, the archive that is
  written lists \<^verbatim>\<open>mimetype\<close> first and stored; after it come, in the sorted order of
  their paths and deflated, exactly the regular files whose own name is not
  \<^verbatim>\<open>mimetype\<close>.
\<close>

lemma repackage_epub_order:
  assumes "([''mimetype''], RegularFile) \<in> set entries" and "distinct (map fst entries)"
  shows "\<exists>rest. repackage_epub entries
                  = (''mimetype'', ZIP_STORED) # map (\<lambda>p. (arcname p, ZIP_DEFLATED)) rest
           \<and> sorted rest \<and> distinct rest
           \<and> set rest = {p. (p, RegularFile) \<in> set entries \<and> name_of p \<noteq> ''mimetype''}"
proof (intro exI conjI)
  from assms have "find (\<lambda>e. fst e = [''mimetype'']) entries = Some ([''mimetype''], RegularFile)"
    by (rule find_first_of_path)
  then show "repackage_epub entries
               = (''mimetype'', ZIP_STORED) # map (\<lambda>p. (arcname p, ZIP_DEFLATED)) (other_files entries)"
    by (simp add: repackage_epub_def mimetype_entry_def)
  show "sorted (other_files entries)" by (rule other_files_sorted)
  show "distinct (other_files entries)" using assms(2) by (rule other_files_distinct)
  show "set (other_files entries)
          = {p. (p, RegularFile) \<in> set entries \<and> name_of p \<noteq> ''mimetype''}"
    by (rule other_files_set)
qed

lemma repackage_epub_order_example:
  "([''mimetype''], RegularFile) \<in> set epub_tree \<and> distinct (map fst epub_tree)
   \<and> (\<exists>rest. repackage_epub epub_tree
                  = (''mimetype'', ZIP_STORED) # map (\<lambda>p. (arcname p, ZIP_DEFLATED)) rest
           \<and> sorted rest \<and> distinct rest
           \<and> set rest = {p. (p, RegularFile) \<in> set epub_tree \<and> name_of p \<noteq> ''mimetype''})"
proof -
  have h1: "([''mimetype''], RegularFile) \<in> set epub_tree"
    and h2: "distinct (map fst epub_tree)"
    by (simp_all add: epub_tree_def)
  from repackage_epub_order [OF h1 h2] h1 h2 show ?thesis by blast
qed

text \<open>
  Claim C7. After the \<^verbatim>\<open>mimetype\<close> entry, which is first and stored, every other file
  of the directory should follow, sorted and deflated. The loop skips every file whose
  own name is \<^verbatim>\<open>mimetype\<close>, not only the one at the top: the regular file
  \<^verbatim>\<open>EPUB/mimetype\<close> is in the directory and the archive does not hold it.
\<close>

theorem repackage_epub_drops_nested_mimetype:
  "([''EPUB'', ''mimetype''], RegularFile) \<in> set epub_tree_nested
   \<and> repackage_epub epub_tree_nested = [(''mimetype'', ZIP_STORED)]"
  by (simp add: epub_tree_nested_def repackage_epub_def mimetype_entry_def other_files_def name_of_def)

lemma epub_tree_value:
  "repackage_epub epub_tree
     = [(''mimetype'', ZIP_STORED), (''EPUB/content.opf'', ZIP_DEFLATED),
        (''META-INF/container.xml'', ZIP_DEFLATED)]"
  by (simp add: epub_tree_def repackage_epub_def mimetype_entry_def other_files_def name_of_def arcname_def)

section \<open>What the removal of the two-column wrapper deletes\<close>

lemma openings_removed_scan:
  "openings_removed s (re_sub_scan (literal (bs # ''twocolumn['') []) 0 s)"
proof (induction s rule: length_induct)
  case (1 s)
  let ?tok = "bs # ''twocolumn[''"
  show ?case
  proof (cases s)
    case Nil
    then show ?thesis by (simp add: openings_done)
  next
    case (Cons c cs)
    show ?thesis
    proof (cases "prefix ?tok s")
      case True
      then obtain r where s: "s = ?tok @ r" by (auto simp: prefix_def)
      with Cons have cs: "cs = ''twocolumn['' @ r" by simp
      have "re_sub_scan (literal ?tok []) 0 s
              = re_sub_scan (literal ?tok []) (length ?tok - 1) cs"
        using True Cons by (simp add: literal_def)
      also have "\<dots> = re_sub_scan (literal ?tok []) 0 r"
        by (subst re_sub_scan_skip) (simp add: cs)
      finally have out: "re_sub_scan (literal ?tok []) 0 s = re_sub_scan (literal ?tok []) 0 r" .
      have "length r < length s" using s by simp
      with 1 have "openings_removed r (re_sub_scan (literal ?tok []) 0 r)" by blast
      then have "openings_removed (?tok @ r) (re_sub_scan (literal ?tok []) 0 r)"
        using openings_drop [of r] by simp
      with out s show ?thesis by simp
    next
      case False
      then have "literal ?tok [] (c # cs) = None" using Cons by (simp add: literal_def)
      moreover from 1 Cons have "openings_removed cs (re_sub_scan (literal ?tok []) 0 cs)"
        by simp
      ultimately show ?thesis using Cons False by (simp add: openings_keep)
    qed
  qed
qed

lemma openings_removed_unique:
  "openings_removed s t \<Longrightarrow> t = re_sub_scan (literal (bs # ''twocolumn['') []) 0 s"
proof (induction rule: openings_removed.induct)
  case openings_done
  show ?case by simp
next
  case (openings_keep c s t)
  from openings_keep.hyps(1) have "literal (bs # ''twocolumn['') [] (c # s) = None"
    unfolding literal_def by (rule if_not_P)
  with openings_keep.IH show ?case by simp
next
  case (openings_drop s t)
  define tok where "tok = bs # ''twocolumn[''"
  define mt where "mt = literal tok []"
  have m: "mt (bs # ''twocolumn['' @ s) = Some (length tok, [])"
    by (simp add: mt_def literal_def tok_def)
  have "re_sub_scan mt 0 (bs # ''twocolumn['' @ s)
          = [] @ re_sub_scan mt 0 (drop (length tok) (bs # ''twocolumn['' @ s))"
    using m by (rule re_sub_scan_match [where mt = mt]) (simp add: tok_def)
  also have "\<dots> = re_sub_scan mt 0 s" by (simp add: tok_def)
  finally show ?case using openings_drop.IH unfolding mt_def tok_def by simp
qed

lemma upto_last_nl_None: "upto_last_nl w = None \<longleftrightarrow> nl \<notin> set w"
  by (induction w) (auto split: option.splits)

lemma upto_last_nl_split:
  "upto_last_nl ws = Some p \<Longrightarrow> \<exists>q. ws = p @ nl # q \<and> nl \<notin> set q"
proof (induction ws arbitrary: p)
  case Nil
  then show ?case by simp
next
  case (Cons c cs)
  show ?case
  proof (cases "upto_last_nl cs")
    case None
    then have "nl \<notin> set cs" by (simp add: upto_last_nl_None)
    with None Cons.prems show ?thesis by (auto split: if_splits)
  next
    case (Some p')
    with Cons.prems have "p = c # p'" by simp
    moreover from Cons.IH [OF Some] obtain q where "cs = p' @ nl # q \<and> nl \<notin> set q" ..
    ultimately show ?thesis by simp
  qed
qed

lemma upto_last_nl_at: "nl \<notin> set q \<Longrightarrow> upto_last_nl (p @ nl # q) = Some p"
proof (induction p)
  case Nil
  then have "upto_last_nl q = None" by (simp add: upto_last_nl_None)
  then show ?case by simp
next
  case (Cons c p)
  then show ?case by simp
qed

lemma is_space_nl: "is_space nl"
  by (simp add: is_space_def)

lemma closing_bracket_line_None:
  "closing_bracket_line (c # cs) = None \<longleftrightarrow> \<not> (c = CHR '']'' \<and> eol_after_spaces cs)"
proof (cases "c = CHR '']''")
  case False
  then show ?thesis by (simp add: closing_bracket_line_def)
next
  case True
  show ?thesis
  proof (cases "dropWhile is_space cs = []")
    case True
    with \<open>c = CHR '']''\<close> show ?thesis
      by (simp add: closing_bracket_line_def eol_after_spaces_def del: dropWhile_eq_Nil_conv)
  next
    case False
    with \<open>c = CHR '']''\<close> show ?thesis
      by (simp add: closing_bracket_line_def eol_after_spaces_def upto_last_nl_None
               del: dropWhile_eq_Nil_conv)
  qed
qed

lemma closing_bracket_line_match:
  assumes "closing_bracket_line (c # cs) = Some n"
  shows "c = CHR '']'' \<and> 0 < n \<and> n - 1 \<le> length cs \<and> list_all is_space (take (n - 1) cs)
         \<and> (drop (n - 1) cs = []
              \<or> hd (drop (n - 1) cs) = nl \<and> \<not> eol_after_spaces (tl (drop (n - 1) cs)))"
proof -
  from assms have c: "c = CHR '']''"
    by (auto simp: closing_bracket_line_def split: if_splits)
  show ?thesis
  proof (cases "dropWhile is_space cs = []")
    case True
    with assms c have n: "n = Suc (length cs)" by (simp add: closing_bracket_line_def)
    from True have "list_all is_space cs" by (simp add: dropWhile_eq_Nil_conv list_all_iff)
    with c n show ?thesis by simp
  next
    case False
    with assms c
    have "map_option (\<lambda>p. Suc (length p)) (upto_last_nl (takeWhile is_space cs)) = Some n"
      by (auto simp: closing_bracket_line_def split: if_splits)
    then obtain p where p: "upto_last_nl (takeWhile is_space cs) = Some p"
      and n: "n = Suc (length p)"
      by auto
    from upto_last_nl_split [OF p] obtain q
      where q: "takeWhile is_space cs = p @ nl # q" and nq: "nl \<notin> set q"
      by blast
    define rest where "rest = dropWhile is_space cs"
    have cs: "cs = p @ nl # q @ rest"
      using takeWhile_dropWhile_id [of is_space cs] q unfolding rest_def
      by (metis append.assoc append_Cons)
    have all: "list_all is_space (p @ nl # q)"
      unfolding q [symmetric] by (rule list_all_takeWhile)
    then have sp: "list_all is_space p" and sq: "list_all is_space q" by simp_all
    have head: "takeWhile is_space rest = []" unfolding rest_def by (rule takeWhile_dropWhile_Nil)
    have rest: "rest \<noteq> []" using False by (simp add: rest_def)
    have tq: "takeWhile is_space (q @ rest) = q"
      using sq head by (induction q) simp_all
    have dq: "dropWhile is_space (q @ rest) = rest"
      using sq head by (simp add: list_all_dropWhile_append dropWhile_fixed)
    have "\<not> eol_after_spaces (q @ rest)"
      using tq dq rest nq by (simp add: eol_after_spaces_def del: dropWhile_eq_Nil_conv)
    moreover have "take (length p) cs = p" by (subst cs) simp
    moreover have "drop (length p) cs = nl # q @ rest" by (subst cs) simp
    moreover have "length p \<le> length cs" by (subst cs) simp
    ultimately show ?thesis using c n sp by simp
  qed
qed

lemma closing_bracket_line_at:
  assumes ws: "list_all is_space ws"
    and r: "r = [] \<or> hd r = nl \<and> \<not> eol_after_spaces (tl r)"
  shows "closing_bracket_line (CHR '']'' # ws @ r) = Some (Suc (length ws))"
proof (cases r)
  case Nil
  have "dropWhile is_space ws = []" using ws by (simp add: list_all_iff)
  with Nil show ?thesis by (simp add: closing_bracket_line_def del: dropWhile_eq_Nil_conv)
next
  case (Cons x r')
  with r have x: "x = nl" and r': "\<not> eol_after_spaces r'" by simp_all
  from r' have d: "dropWhile is_space r' \<noteq> []" and t: "nl \<notin> set (takeWhile is_space r')"
    by (simp_all add: eol_after_spaces_def del: dropWhile_eq_Nil_conv)
  have "dropWhile is_space (ws @ nl # r') = dropWhile is_space r'"
    using ws by (simp add: list_all_dropWhile_append is_space_nl)
  with d have d': "dropWhile is_space (ws @ nl # r') \<noteq> []" by simp
  have "takeWhile is_space (ws @ nl # r') = ws @ nl # takeWhile is_space r'"
    using ws by (induction ws) (simp_all add: is_space_nl)
  with t have "upto_last_nl (takeWhile is_space (ws @ nl # r')) = Some ws"
    by (simp add: upto_last_nl_at)
  with d' show ?thesis unfolding Cons x
    by (simp add: closing_bracket_line_def del: dropWhile_eq_Nil_conv)
qed

lemma sub_bracket_lines_skip:
  "k \<le> length s \<Longrightarrow>
     sub_bracket_lines (c = nl) k s = sub_bracket_lines (last (c # take k s) = nl) 0 (drop k s)"
proof (induction s arbitrary: c k)
  case Nil
  then show ?case by simp
next
  case (Cons x xs)
  show ?case
  proof (cases k)
    case 0
    then show ?thesis by simp
  next
    case (Suc j)
    with Cons.prems have "j \<le> length xs" by simp
    from Cons.IH [OF this, of x] Suc show ?thesis by simp
  qed
qed

lemma bracket_lines_removed_scan:
  "bracket_lines_removed bol s (sub_bracket_lines bol 0 s)"
proof (induction s arbitrary: bol rule: length_induct)
  case (1 s)
  show ?case
  proof (cases s)
    case Nil
    then show ?thesis by (simp add: lines_done)
  next
    case (Cons c cs)
    show ?thesis
    proof (cases "if bol then closing_bracket_line (c # cs) else None")
      case None
      have keep: "\<not> (bol \<and> c = CHR '']'' \<and> eol_after_spaces cs)"
        using None closing_bracket_line_None [of c cs] by (cases bol) auto
      have "bracket_lines_removed (c = nl) cs (sub_bracket_lines (c = nl) 0 cs)"
        using 1 Cons by simp
      with keep have "bracket_lines_removed bol (c # cs) (c # sub_bracket_lines (c = nl) 0 cs)"
        by (rule lines_keep)
      then show ?thesis using None Cons by simp
    next
      case (Some n)
      then have bol: "bol" and m: "closing_bracket_line (c # cs) = Some n"
        by (simp_all split: if_splits)
      let ?ws = "take (n - 1) cs" and ?r = "drop (n - 1) cs"
      from closing_bracket_line_match [OF m]
      have c: "c = CHR '']''" and le: "n - 1 \<le> length cs" and ws: "list_all is_space ?ws"
        and r: "?r = [] \<or> hd ?r = nl \<and> \<not> eol_after_spaces (tl ?r)"
        by simp_all
      have out: "sub_bracket_lines bol 0 s = sub_bracket_lines (last (c # ?ws) = nl) 0 ?r"
        using Some Cons sub_bracket_lines_skip [OF le, of c] by simp
      have "length ?r < length s" using Cons by simp
      with 1 have "bracket_lines_removed (last (c # ?ws) = nl) ?r
                     (sub_bracket_lines (last (c # ?ws) = nl) 0 ?r)"
        by blast
      with ws r have "bracket_lines_removed True (CHR '']'' # ?ws @ ?r)
                        (sub_bracket_lines (last (c # ?ws) = nl) 0 ?r)"
        unfolding c by (rule lines_drop)
      then show ?thesis using out bol Cons c by simp
    qed
  qed
qed

lemma bracket_lines_removed_unique:
  "bracket_lines_removed bol s t \<Longrightarrow> t = sub_bracket_lines bol 0 s"
proof (induction rule: bracket_lines_removed.induct)
  case (lines_done bol)
  show ?case by simp
next
  case (lines_keep bol c s t)
  from lines_keep.hyps(1) have "(if bol then closing_bracket_line (c # s) else None) = None"
    by (simp add: closing_bracket_line_None)
  with lines_keep.IH show ?case by simp
next
  case (lines_drop ws r t)
  have m: "closing_bracket_line (CHR '']'' # ws @ r) = Some (Suc (length ws))"
    using lines_drop.hyps(1,2) by (rule closing_bracket_line_at)
  have "sub_bracket_lines True 0 (CHR '']'' # ws @ r)
          = sub_bracket_lines (CHR '']'' = nl) (length ws) (ws @ r)"
    using m by simp
  also have "\<dots> = sub_bracket_lines (last (CHR '']'' # ws) = nl) 0 r"
    using sub_bracket_lines_skip [of "length ws" "ws @ r" "CHR '']''"] by simp
  finally show ?case using lines_drop.IH by simp
qed

text \<open>
  Claim C5, as amended. For every input text, the removal of the two-column wrapper
  gives exactly the text obtained in two passes from left to right. The first pass
  deletes every occurrence of the opening token \<^verbatim>\<open>\twocolumn[\<close> and nothing else. The
  second pass, on the result of the first, deletes every closing bracket that starts a
  line and is followed by nothing but white space up to a line feed or the end of the
  text, whether or not it closes a wrapper and whether or not the text has a wrapper;
  with the bracket goes the white space after it, up to the end of the text when the
  white space reaches it and otherwise up to the last line feed of that white space,
  which stays; nothing else is deleted. The relations \<^const>\<open>openings_removed\<close> and
  \<^const>\<open>bracket_lines_removed\<close> state the two passes; a text is related to the input
  by them if and only if it is the output of the code.
\<close>

theorem strip_twocolumn_deletes_only:
  "(\<exists>mid. openings_removed content mid \<and> bracket_lines_removed True mid out)
     \<longleftrightarrow> out = strip_twocolumn content"
proof
  assume "\<exists>mid. openings_removed content mid \<and> bracket_lines_removed True mid out"
  then obtain mid where o: "openings_removed content mid"
    and b: "bracket_lines_removed True mid out"
    by blast
  from o have "mid = re_sub_scan (literal (bs # ''twocolumn['') []) 0 content"
    by (rule openings_removed_unique)
  moreover from b have "out = sub_bracket_lines True 0 mid"
    by (rule bracket_lines_removed_unique)
  ultimately show "out = strip_twocolumn content"
    by (simp add: strip_twocolumn_def re_sub_def)
next
  assume out: "out = strip_twocolumn content"
  show "\<exists>mid. openings_removed content mid \<and> bracket_lines_removed True mid out"
  proof (intro exI conjI)
    show "openings_removed content (re_sub_scan (literal (bs # ''twocolumn['') []) 0 content)"
      by (rule openings_removed_scan)
    show "bracket_lines_removed True (re_sub_scan (literal (bs # ''twocolumn['') []) 0 content) out"
      unfolding out strip_twocolumn_def re_sub_def by (rule bracket_lines_removed_scan)
  qed
qed

text \<open>
  Claim C5 as stated fails: a text without any wrapper loses a closing bracket that
  stands alone on its line.
\<close>

theorem strip_twocolumn_without_wrapper:
  "strip_twocolumn (''x'' @ [nl] @ '']'' @ [nl] @ ''y'') = ''x'' @ [nl, nl] @ ''y''"
  by (simp add: strip_twocolumn_def re_sub_def literal_def closing_bracket_line_def is_space_def)

text \<open>After one wrapper, every later bracket line goes as well.\<close>

lemma strip_twocolumn_two_brackets:
  "strip_twocolumn (bs # ''twocolumn['' @ [nl] @ ''a'' @ [nl] @ '']'' @ [nl] @ ''b[1'' @ [nl] @ '']'' @ [nl])
     = [nl] @ ''a'' @ [nl, nl] @ ''b[1'' @ [nl]"
  by (simp add: strip_twocolumn_def re_sub_def literal_def closing_bracket_line_def is_space_def)

section \<open>The markers of the rebuilt document\<close>

lemma prefix_wall: "c \<notin> set sub \<Longrightarrow> prefix sub (x @ c # y) \<longleftrightarrow> prefix sub x"
  by (auto simp: prefix_append prefix_Cons)

lemma sublist_wall:
  assumes "c \<notin> set sub"
  shows "sublist sub (a @ c # b) \<longleftrightarrow> sublist sub a \<or> sublist sub b"
proof
  assume "sublist sub (a @ c # b)"
  then consider "sublist sub a" | "sublist sub (c # b)"
    | xs1 xs2 where "sub = xs1 @ xs2" "suffix xs1 a" "prefix xs2 (c # b)"
    by (auto simp: sublist_append)
  then show "sublist sub a \<or> sublist sub b"
  proof cases
    case 1
    then show ?thesis ..
  next
    case 2
    with assms show ?thesis by (auto simp: sublist_Cons_right prefix_Cons)
  next
    case 3
    with assms have "xs2 = []" by (cases xs2) (auto simp: prefix_Cons)
    with 3 show ?thesis by auto
  qed
next
  assume "sublist sub a \<or> sublist sub b"
  then show "sublist sub (a @ c # b)"
    by (auto simp: sublist_append sublist_Cons_right)
qed

lemma occurrences_mem:
  "i \<in> set (occurrences sub s) \<longleftrightarrow> i \<le> length s \<and> prefix sub (drop i s)"
  by (auto simp: occurrences_def simp del: upt_Suc)

lemma occurrences_empty_iff: "occurrences sub s = [] \<longleftrightarrow> \<not> sublist sub s"
proof -
  have "sublist sub s \<longleftrightarrow> (\<exists>i\<le>length s. prefix sub (drop i s))"
  proof
    assume "sublist sub s"
    then obtain t where t: "suffix t s" "prefix sub t" by (auto simp: sublist_altdef')
    then obtain u where "s = u @ t" by (auto simp: suffix_def)
    then have "drop (length u) s = t" and "length u \<le> length s" by simp_all
    with t show "\<exists>i\<le>length s. prefix sub (drop i s)" by blast
  next
    assume "\<exists>i\<le>length s. prefix sub (drop i s)"
    then obtain i where "prefix sub (drop i s)" by blast
    then show "sublist sub s"
      using suffix_drop [of i s] by (auto simp: sublist_altdef')
  qed
  then show ?thesis
    by (auto simp: occurrences_def filter_empty_conv simp del: upt_Suc)
qed

lemma occurrences_wall:
  assumes "c \<notin> set sub" and "sub \<noteq> []"
  shows "occurrences sub (a @ c # b)
           = occurrences sub a @ map (\<lambda>i. i + Suc (length a)) (occurrences sub b)"
proof -
  let ?P = "\<lambda>i. prefix sub (drop i (a @ c # b))"
  have split: "[0..<Suc (length (a @ c # b))]
                 = [0..<Suc (length a)] @ map (\<lambda>i. i + Suc (length a)) [0..<Suc (length b)]"
  proof -
    have "length (a @ c # b) = length a + Suc (length b)" by simp
    then have "[0..<Suc (length (a @ c # b))] = [0..<Suc (length a) + Suc (length b)]"
      by (simp del: upt_Suc)
    also have "\<dots> = [0..<Suc (length a)] @ [Suc (length a)..<Suc (length a) + Suc (length b)]"
      by (rule upt_add_eq_append) simp
    also have "[Suc (length a)..<Suc (length a) + Suc (length b)]
                 = map (\<lambda>i. i + Suc (length a)) [0..<Suc (length b)]"
      by (simp only: map_add_upt add.commute)
    finally show ?thesis .
  qed
  have left: "filter ?P [0..<Suc (length a)] = filter (\<lambda>i. prefix sub (drop i a)) [0..<Suc (length a)]"
  proof (rule filter_cong [OF refl])
    fix i assume "i \<in> set [0..<Suc (length a)]"
    then have "i \<le> length a" by (simp del: upt_Suc)
    then have "drop i (a @ c # b) = drop i a @ c # b" by simp
    then show "?P i = prefix sub (drop i a)" using assms(1) by (simp add: prefix_wall)
  qed
  have right: "filter ?P (map (\<lambda>i. i + Suc (length a)) [0..<Suc (length b)])
                 = map (\<lambda>i. i + Suc (length a)) (filter (\<lambda>i. prefix sub (drop i b)) [0..<Suc (length b)])"
    by (simp add: filter_map comp_def)
  show ?thesis
    unfolding occurrences_def split filter_append left right ..
qed

lemma occurrences_end:
  assumes "c \<notin> set sub" and "sub \<noteq> []"
  shows "occurrences sub (sub @ [c]) = [0]"
proof -
  have "occurrences sub sub = [0]"
  proof -
    have "filter (\<lambda>i. prefix sub (drop i sub)) [0..<Suc (length sub)]
            = filter (\<lambda>i. i = 0) [0..<Suc (length sub)]"
    proof (rule filter_cong [OF refl])
      fix i assume "i \<in> set [0..<Suc (length sub)]"
      show "prefix sub (drop i sub) = (i = 0)"
      proof (cases "i = 0")
        case True
        then show ?thesis by simp
      next
        case False
        with assms(2) have "length (drop i sub) < length sub" by (cases sub) auto
        then have "\<not> prefix sub (drop i sub)" by (auto dest: prefix_length_le)
        with False show ?thesis by simp
      qed
    qed
    also have "\<dots> = [0]" by (simp add: upt_rec [of 0] filter_empty_conv del: upt_Suc)
    finally show ?thesis by (simp add: occurrences_def)
  qed
  moreover have "occurrences sub [] = []" using assms(2) by (simp add: occurrences_def)
  ultimately show ?thesis using occurrences_wall [OF assms, of sub "[]"] by simp
qed


lemma two_char_glue:
  assumes "\<not> sublist [x, y] a" and "\<not> sublist [x, y] b" and "b = [] \<or> hd b \<noteq> y"
  shows "\<not> sublist [x, y] (a @ b)"
  using assms(1)
proof (induction a)
  case Nil
  show ?case using assms(2) by simp
next
  case (Cons c a')
  from Cons.prems have np: "\<not> prefix [x, y] (c # a')" and ns: "\<not> sublist [x, y] a'"
    by (simp_all add: sublist_Cons_right)
  have "\<not> prefix [x, y] (c # a' @ b)"
  proof (cases a')
    case Nil
    with assms(3) show ?thesis by (cases b) auto
  next
    case (Cons d a'')
    with np show ?thesis by simp
  qed
  moreover have "\<not> sublist [x, y] (a' @ b)" by (rule Cons.IH [OF ns])
  ultimately show ?case by (simp add: sublist_Cons_right)
qed

lemma two_char_right:
  assumes "\<not> sublist [x, y] a" and "y \<notin> set b"
  shows "\<not> sublist [x, y] (a @ b)"
proof (rule two_char_glue [OF assms(1)])
  show "\<not> sublist [x, y] b" using assms(2) by (auto dest: set_mono_sublist)
  show "b = [] \<or> hd b \<noteq> y" using assms(2) by (cases b) auto
qed

lemma set_join: "set (join sep xs) \<subseteq> set sep \<union> (\<Union>x\<in>set xs. set x)"
  by (induction sep xs rule: join.induct) auto

lemma preamble_no_brace_pair:
  assumes "CHR ''{'' \<notin> set (title meta)" and "\<forall>a\<in>set (authors meta). CHR ''{'' \<notin> set a"
    and "x = CHR ''n'' \<or> x = CHR ''d''"
  shows "\<not> sublist [x, CHR ''{''] (preamble_of meta)"
proof -
  let ?p = "[x, CHR ''{'']"
  have "\<not> sublist ''n{'' fixed_preamble" and "\<not> sublist ''d{'' fixed_preamble"
    by code_simp+
  then have fixed: "\<not> sublist ?p fixed_preamble"
    using assms(3) by auto
  have "CHR ''{'' \<notin> set (join ('' '' @ bs # ''and '') (authors meta))"
    using assms(2) set_join [of "'' '' @ bs # ''and ''" "authors meta"] by auto
  then have a_tail: "CHR ''{'' \<notin> set (join ('' '' @ bs # ''and '') (authors meta) @ ''}'' @ [nl])"
    by simp
  have t_tail: "CHR ''{'' \<notin> set (title meta @ ''}'' @ [nl])" using assms(1) by simp
  have "\<not> sublist ''n{'' (bs # ''title{'')" and "\<not> sublist ''d{'' (bs # ''title{'')"
    and "\<not> sublist ''n{'' (bs # ''author{'')" and "\<not> sublist ''d{'' (bs # ''author{'')"
    by code_simp+
  then have t_head: "\<not> sublist ?p (bs # ''title{'')" and a_head: "\<not> sublist ?p (bs # ''author{'')"
    using assms(3) by auto
  let ?T = "if title meta \<noteq> [] then bs # ''title{'' @ title meta @ ''}'' @ [nl] else []"
  let ?A = "if authors meta \<noteq> []
        then bs # ''author{'' @ join ('' '' @ bs # ''and '') (authors meta) @ ''}'' @ [nl]
        else []"
  have T: "\<not> sublist ?p ?T"
    using two_char_right [OF t_head t_tail] by (simp del: sublist_code)
  have A: "\<not> sublist ?p ?A"
    using two_char_right [OF a_head a_tail] by (simp del: sublist_code)
  have "\<not> sublist ?p (fixed_preamble @ ?T)"
    by (rule two_char_glue [OF fixed T]) simp
  then have "\<not> sublist ?p ((fixed_preamble @ ?T) @ ?A)"
    by (rule two_char_glue [OF _ A]) simp
  then show ?thesis by (simp add: preamble_of_def)
qed

lemma preamble_no_markers:
  assumes "CHR ''{'' \<notin> set (title meta)" and "\<forall>a\<in>set (authors meta). CHR ''{'' \<notin> set a"
  shows "\<not> sublist begin_document (preamble_of meta)"
    and "\<not> sublist end_document (preamble_of meta)"
proof -
  have "sublist ''n{'' begin_document" and "sublist ''d{'' end_document"
    by code_simp+
  moreover have "\<not> sublist ''n{'' (preamble_of meta)" and "\<not> sublist ''d{'' (preamble_of meta)"
    using preamble_no_brace_pair [OF assms] by simp_all
  ultimately show "\<not> sublist begin_document (preamble_of meta)"
    and "\<not> sublist end_document (preamble_of meta)"
    by (blast intro: sublist_order.order.trans)+
qed

lemma markers_no_nl: "nl \<notin> set begin_document" "nl \<notin> set end_document"
  "begin_document \<noteq> []" "end_document \<noteq> []"
  by (simp_all add: begin_document_def end_document_def)

lemma markers_apart:
  "\<not> sublist begin_document end_document" "\<not> sublist end_document begin_document"
  "\<not> sublist begin_document (bs # ''maketitle'')" "\<not> sublist end_document (bs # ''maketitle'')"
  by code_simp+

lemma rebuild_document_shape:
  "rebuild_document content meta
     = preamble_of meta @ nl # begin_document @ nl
         # ((if title meta \<noteq> [] then bs # ''maketitle'' @ [nl] else []) @ body_of content)
         @ nl # end_document @ [nl]"
  by (simp add: rebuild_document_def)

text \<open>
  Where the rebuilt document is well-formed. When the body that the rebuilder keeps
  holds neither marker, and the title and the author names hold no opening brace, the
  rebuilt document has exactly one begin-document marker and exactly one end-document
  marker, the first before the second.
\<close>

lemma rebuild_document_markers:
  assumes "\<not> sublist begin_document (body_of content)"
    and "\<not> sublist end_document (body_of content)"
    and "CHR ''{'' \<notin> set (title meta)"
    and "list_all (\<lambda>a. CHR ''{'' \<notin> set a) (authors meta)"
  shows "\<exists>i j. occurrences begin_document (rebuild_document content meta) = [i]
           \<and> occurrences end_document (rebuild_document content meta) = [j] \<and> i < j"
proof -
  define P where "P = preamble_of meta"
  define M where
    "M = (if title meta \<noteq> [] then bs # ''maketitle'' @ [nl] else []) @ body_of content"
  have shape: "rebuild_document content meta
                 = P @ nl # begin_document @ nl # M @ nl # end_document @ [nl]"
    by (simp add: rebuild_document_shape P_def M_def)
  have PB: "occurrences begin_document P = []" and PE: "occurrences end_document P = []"
    using preamble_no_markers [OF assms(3)] assms(4)
    by (simp_all add: occurrences_empty_iff P_def list_all_iff)
  have maketitle: "\<not> sublist sub (body_of content) \<Longrightarrow> \<not> sublist sub (bs # ''maketitle'')
      \<Longrightarrow> nl \<notin> set sub \<Longrightarrow> \<not> sublist sub M" for sub
    using sublist_wall [of nl sub "bs # ''maketitle''" "body_of content"]
    by (cases "title meta = []") (simp_all add: M_def)
  have MB: "occurrences begin_document M = []"
    using maketitle [OF assms(1) markers_apart(3) markers_no_nl(1)]
    by (simp add: occurrences_empty_iff)
  have ME: "occurrences end_document M = []"
    using maketitle [OF assms(2) markers_apart(4) markers_no_nl(2)]
    by (simp add: occurrences_empty_iff)
  have BB: "occurrences begin_document (begin_document @ [nl]) = [0]"
    and EE: "occurrences end_document (end_document @ [nl]) = [0]"
    by (rule occurrences_end, rule markers_no_nl, rule markers_no_nl)+
  have BE: "occurrences begin_document (end_document @ [nl]) = []"
    and EB: "occurrences end_document (begin_document @ [nl]) = []"
    using markers_apart(1,2) by (simp_all add: occurrences_empty_iff sublist_wall markers_no_nl)
  have nil: "occurrences begin_document [] = []" "occurrences end_document [] = []"
    by (simp_all add: occurrences_empty_iff markers_no_nl)
  have B0: "occurrences begin_document begin_document = [0]"
    using BB occurrences_wall [OF markers_no_nl(1,3), of begin_document "[]"] nil by simp
  have E0: "occurrences end_document end_document = [0]"
    using EE occurrences_wall [OF markers_no_nl(2,4), of end_document "[]"] nil by simp
  have E_B: "occurrences end_document begin_document = []"
    and B_E: "occurrences begin_document end_document = []"
    using markers_apart by (simp_all add: occurrences_empty_iff)
  have occ_B: "occurrences begin_document (rebuild_document content meta) = [Suc (length P)]"
    unfolding shape
    by (simp add: occurrences_wall [OF markers_no_nl(1,3)] PB MB B0 B_E nil)
  have occ_E: "occurrences end_document (rebuild_document content meta)
                 = [Suc (length M) + Suc (length begin_document) + Suc (length P)]"
    unfolding shape
    by (simp add: occurrences_wall [OF markers_no_nl(2,4)] PE ME E0 E_B nil)
  show ?thesis unfolding occ_B occ_E by simp
qed


lemma body_of_paper_text: "body_of paper_text = ''Hello''"
  by code_simp

lemma rebuild_document_markers_example:
  "\<exists>i j. occurrences begin_document (rebuild_document paper_text paper_meta) = [i]
         \<and> occurrences end_document (rebuild_document paper_text paper_meta) = [j] \<and> i < j"
proof -
  have h1: "\<not> sublist begin_document (body_of paper_text)"
    and h2: "\<not> sublist end_document (body_of paper_text)"
    unfolding body_of_paper_text by code_simp+
  have h3: "CHR ''{'' \<notin> set (title paper_meta)"
    and h4: "list_all (\<lambda>a. CHR ''{'' \<notin> set a) (authors paper_meta)"
    by (simp_all add: paper_meta_def)
  from h1 h2 h3 h4 show ?thesis by (rule rebuild_document_markers)
qed

text \<open>A text without a begin marker is its own body.\<close>

lemma re_search_none:
  assumes "\<And>t. suffix t s \<Longrightarrow> mt t = None"
  shows "re_search mt s = None"
  using assms
proof (induction s)
  case Nil
  then show ?case by simp
next
  case (Cons c cs)
  have "mt (c # cs) = None" by (rule Cons.prems) simp
  moreover have "re_search mt cs = None"
    by (rule Cons.IH) (simp add: Cons.prems suffix_Cons)
  ultimately show ?case by simp
qed

lemma body_of_without_begin_marker:
  assumes "\<not> sublist begin_document content"
  shows "body_of content = content"
proof -
  have "re_search document_body content = None"
  proof (rule re_search_none)
    fix t assume "suffix t content"
    with assms have "\<not> prefix begin_document t" by (rule not_sublist_suffix_prefix)
    then show "document_body t = None" by (simp add: document_body_def lit_def)
  qed
  then show ?thesis by (simp add: body_of_def)
qed

text \<open>
  A text that holds neither marker is rebuilt into a well-formed document: this is the
  case of the fallback to the whole buffer.
\<close>

lemma rebuild_document_without_markers:
  assumes "\<not> sublist begin_document content"
    and "\<not> sublist end_document content"
    and "CHR ''{'' \<notin> set (title meta)"
    and "list_all (\<lambda>a. CHR ''{'' \<notin> set a) (authors meta)"
  shows "\<exists>i j. occurrences begin_document (rebuild_document content meta) = [i]
           \<and> occurrences end_document (rebuild_document content meta) = [j] \<and> i < j"
proof -
  have body: "body_of content = content"
    using assms(1) by (rule body_of_without_begin_marker)
  show ?thesis
    by (rule rebuild_document_markers) (simp_all add: body assms)
qed

text \<open>
  Not every text with unbalanced markers is rebuilt badly: a second end marker after
  the first pair is outside the body and is dropped.
\<close>

lemma rebuild_document_extra_end_marker:
  "body_of (begin_document @ ''A'' @ end_document @ ''B'' @ end_document) = ''A''
   \<and> occurrences begin_document
        (rebuild_document (begin_document @ ''A'' @ end_document @ ''B'' @ end_document) no_meta)
       = [133]
   \<and> occurrences end_document
        (rebuild_document (begin_document @ ''A'' @ end_document @ ''B'' @ end_document) no_meta)
       = [152]"
  by code_simp

lemma rebuild_document_value:
  "rebuild_document paper_text paper_meta
     = fixed_preamble @ bs # ''title{T}'' @ [nl] @ bs # ''author{A '' @ bs # ''and B}'' @ [nl, nl]
       @ bs # ''begin{document}'' @ [nl] @ bs # ''maketitle'' @ [nl] @ ''Hello'' @ [nl]
       @ bs # ''end{document}'' @ [nl]"
  by code_simp


text \<open>
  Claim C4. The rebuilt document is not well-formed for every input text. The text
  \<^verbatim>\<open>junk\begin{document}Hello\<close> has a begin-document marker and no end-document
  marker, so the pattern of the rebuilder does not match and the whole buffer is kept
  as the body, its marker included: with empty metadata the rebuilt document has two
  begin-document markers, at the indices 133 and 154, in front of its one
  end-document marker at the index 176.
\<close>

theorem rebuild_document_lone_begin_marker:
  "occurrences begin_document (rebuild_document (''junk'' @ begin_document @ ''Hello'') no_meta)
     = [133, 154]
   \<and> occurrences end_document (rebuild_document (''junk'' @ begin_document @ ''Hello'') no_meta)
     = [176]"
  by code_simp

text \<open>The same happens when the body between the first pair of markers holds a
  begin-document marker.\<close>

lemma rebuild_document_nested_begin_marker:
  "body_of (begin_document @ ''X'' @ begin_document @ ''Y'' @ end_document)
     = ''X'' @ begin_document @ ''Y''
   \<and> occurrences begin_document
        (rebuild_document (begin_document @ ''X'' @ begin_document @ ''Y'' @ end_document) no_meta)
       = [133, 151]"
  by code_simp

section \<open>The simple macro expander and replacement texts with a backslash\<close>

text \<open>
  Claim C2. Every stage of the rewrite pipeline should return a text for every input.
  The simple macro expander does not: the document that defines \<^verbatim>\<open>\R\<close> as
  \<^verbatim>\<open>\mathbb{R}\<close> makes \<^verbatim>\<open>re.sub\<close> compile the replacement text as a template, and
  the escape \<^verbatim>\<open>\m\<close> raises.
\<close>

theorem expand_simple_macros_raises: "expand_simple_macros macro_mathbb = Inl ReError"
  by code_simp

text \<open>
  Claim C3. Each use of a macro should be replaced by exactly the replacement text of
  its definition. With \<^verbatim>\<open>\v\<close> defined as \<^verbatim>\<open>\nu\<close> the use \<^verbatim>\<open>$\v$\<close> becomes a
  dollar sign, a line feed, the letter u and a dollar sign: the template compiler reads
  \<^verbatim>\<open>\n\<close> as a line feed.
\<close>

theorem expand_simple_macros_not_literal:
  "macro_table macro_nu = [(bs # ''v'', bs # ''nu'')]
   \<and> expand_simple_macros macro_nu = Inr (''$'' @ [nl] @ ''u$'')"
  by code_simp

text \<open>A replacement text without a backslash is a template that stands for itself,
  and then each use is replaced by the text as it is.\<close>

lemma parse_template_plain:
  "bs \<notin> set r \<Longrightarrow> parse_template 0 r = Inr (map Literal r)"
  by (induction r) auto

lemma expand_template_plain: "expand_template (map Literal r) whole = r"
  by (induction r) (auto simp: expand_template_def)

lemma expand_macro_plain:
  assumes "bs \<notin> set replacement"
  shows "expand_macro cmd replacement content
           = Inr (re_sub (\<lambda>s. if macro_use cmd s then Some (length cmd, replacement) else None)
                    content)"
  using assms
  by (simp add: expand_macro_def parse_template_plain expand_template_plain cong: if_cong)

section \<open>Citation linking on spans that are empty or not closed\<close>

text \<open>
  Claim C1. Every citation span should come out either wrapped in a link or unchanged.
  A span whose list of keys is empty has no first key and the lookup of it raises
  \<^verbatim>\<open>IndexError\<close>; a span opening without a closing tag leaves \<^verbatim>\<open>span_end\<close>
  unbound, and the slice that uses it raises \<^verbatim>\<open>UnboundLocalError\<close>.
\<close>

theorem link_fragment_raises:
  "link_fragment 5 ''bib.xhtml'' {''ref-a''} empty_citation None = Some (Inl IndexError)
   \<and> link_fragment 5 ''bib.xhtml'' {''ref-a''} open_citation None = Some (Inl UnboundLocalError)"
  by code_simp

text \<open>The example of the specification: two keys, a nested span, and the link goes to
  the first key; with no entry for that key the fragment is unchanged.\<close>

lemma link_fragment_nested:
  "link_fragment 5 ''bib.xhtml'' {''ref-a'', ''ref-b''} nested_citation None
     = Some (Inr (''See <a href='' @ [dq] @ ''bib.xhtml#ref-a'' @ [dq] @ ''>'' @ citation_marker
          @ ''a b'' @ [dq] @ ''>(<span class='' @ [dq] @ ''sc'' @ [dq]
          @ ''>A</span>; B)</span></a>.'', Some 81))"
  by code_simp

lemma link_fragment_unknown_key:
  "link_fragment 5 ''bib.xhtml'' {''ref-c''} nested_citation None
     = Some (Inr (nested_citation, Some 81))"
  by code_simp


text \<open>
  When a closed span is followed by a span opening without a closing tag,
  \<^verbatim>\<open>span_end\<close> keeps the end of the first span, the position does not advance, and
  the loop never ends: no number of iterations is enough.
\<close>

lemma closed_then_open_first_step:
  "find_from citation_marker closed_then_open 46 = Some 46"
  "find_from [dq] closed_then_open (46 + length citation_marker) = Some 82"
  "find_from ''>'' closed_then_open 82 = Some 83"
  "span_scan closed_then_open 1 84 (Some 46) = Some 46"
  "first_word (slice closed_then_open (46 + length citation_marker) 82) = Some ''b''"
  by code_simp+

lemma closed_then_open_loops:
  "link_loop fuel bib_chapter bib_ids closed_then_open 46 (Some 46) result = None"
proof (induction fuel arbitrary: result)
  case 0
  show ?case by simp
next
  case (Suc fuel)
  show ?case
    by (simp add: closed_then_open_first_step Suc.IH del: One_nat_def)
qed

lemma closed_then_open_never_returns:
  "link_fragment fuel ''bib.xhtml'' {''ref-a''} closed_then_open None = None"
proof -
  have cites: "sublist ''data-cites='' closed_then_open" by code_simp
  show ?thesis
  proof (cases fuel)
    case 0
    with cites show ?thesis by (simp add: link_fragment_def)
  next
    case (Suc n)
    have "find_from citation_marker closed_then_open 0 = Some 0"
      "find_from [dq] closed_then_open (0 + length citation_marker) = Some 36"
      "find_from ''>'' closed_then_open 36 = Some 37"
      "span_scan closed_then_open 1 38 None = Some 46"
      "first_word (slice closed_then_open (0 + length citation_marker) 36) = Some ''a''"
      by code_simp+
    with cites Suc show ?thesis
      by (simp add: link_fragment_def closed_then_open_loops del: One_nat_def)
  qed
qed

end
